theory Spec2Isabelle
  imports Complex_Main "HOL-Library.Word" "HOL-Library.Multiset" "HOL-Library.Sublist"
begin

unbundle bit_operations_syntax

section \<open>Data model of \<^verbatim>\<open>huffman_commands.c\<close>\<close>

text \<open>
  \<^verbatim>\<open>unsigned long\<close> is the 64-bit unsigned integer of an LP64 target (the code stores
  ``up to \<^verbatim>\<open>MAX_CODE_LEN\<close> = 64 bits'' in it); its arithmetic wraps modulo \<open>2^64\<close>.
  \<^verbatim>\<open>int\<close> is the 32-bit signed integer; it is modelled by \<^typ>\<open>int\<close> and every place where
  a value could leave the range of \<^verbatim>\<open>int\<close> is written out as a fault.
\<close>

type_synonym ulong = "64 word"

definition NUM_CHARS :: nat where "NUM_CHARS = 256"
definition MAX_CODE_LEN :: nat where "MAX_CODE_LEN = 64"
definition MAX_HEAP :: nat where "MAX_HEAP = NUM_CHARS * 2"
definition INT_MAX :: int where "INT_MAX = 2147483647"
definition INT_MIN :: int where "INT_MIN = - 2147483648"

text \<open>
  \<^verbatim>\<open>struct Node\<close>. The program allocates exactly two shapes of node: a leaf
  (\<^verbatim>\<open>symbol = c\<close>, both children \<^verbatim>\<open>NULL\<close>) and an internal node (\<^verbatim>\<open>symbol = -1\<close>, both
  children set). Every node is allocated once and referenced by exactly one parent or
  heap slot, so the pointer structure is a tree and the two shapes are the two
  constructors. The test \<^verbatim>\<open>symbol >= 0\<close> is the test for \<open>Leaf\<close>.
\<close>

datatype node =
    Leaf (symbol: nat) (freq: ulong)
  | Inner (freq: ulong) (left: node) (right: node)

text \<open>\<^verbatim>\<open>CodeEntry\<close>, and the global array \<^verbatim>\<open>char_codes[NUM_CHARS]\<close> as a list.\<close>

record CodeEntry =
  code :: ulong
  len :: int

type_synonym code_table = "CodeEntry list"

text \<open>The frequency table is read through a pointer at the indices \<open>0..255\<close>.\<close>

type_synonym freq_table = "nat \<Rightarrow> ulong"

text \<open>
  What C leaves undefined is a value of the model: a write past the end of the
  traversal stack, a pop from an empty heap, an \<^verbatim>\<open>int\<close> that overflows.
\<close>

datatype fault = StackOutOfBounds | EmptyHeapPop | SignedOverflow

section \<open>The binary heap\<close>

text \<open>
  The array \<^verbatim>\<open>heap[0 .. heap_size-1]\<close> is a list; \<^verbatim>\<open>heap_size\<close> is its length.
  \<^verbatim>\<open>heap_up\<close> and \<^verbatim>\<open>heap_down\<close> are only called with an index below \<^verbatim>\<open>heap_size\<close>.
\<close>

definition heap_swap :: "node list \<Rightarrow> nat \<Rightarrow> nat \<Rightarrow> node list" where
  "heap_swap h i j = (let t = h ! i in (h[i := h ! j])[j := t])"

function heap_up :: "node list \<Rightarrow> nat \<Rightarrow> node list" where
  "heap_up h i =
     (if i > 0 then
        (let p = (i - 1) div 2 in
         if freq (h ! p) \<le> freq (h ! i) then h
         else heap_up (heap_swap h p i) p)
      else h)"
  by pat_completeness auto
termination
  by (relation "measure (\<lambda>(h, i). i)") auto

declare heap_up.simps [simp del]

lemma length_heap_swap [simp]: "length (heap_swap h i j) = length h"
  by (simp add: heap_swap_def Let_def)

definition smallest_of :: "node list \<Rightarrow> nat \<Rightarrow> nat" where
  "smallest_of h i =
     (let l = 2 * i + 1; r = 2 * i + 2; smallest = i;
          smallest = (if l < length h \<and> freq (h ! l) < freq (h ! smallest) then l else smallest);
          smallest = (if r < length h \<and> freq (h ! r) < freq (h ! smallest) then r else smallest)
      in smallest)"

lemma smallest_of_cases:
  "smallest_of h i = i \<or>
   (smallest_of h i = 2 * i + 1 \<and> 2 * i + 1 < length h) \<or>
   (smallest_of h i = 2 * i + 2 \<and> 2 * i + 2 < length h)"
  by (simp add: smallest_of_def Let_def)

function heap_down :: "node list \<Rightarrow> nat \<Rightarrow> node list" where
  "heap_down h i =
     (let smallest = smallest_of h i in
      if smallest = i then h
      else heap_down (heap_swap h i smallest) smallest)"
  by pat_completeness auto
termination
proof (relation "measure (\<lambda>(h, i). length h - i)")
  show "wf (measure (\<lambda>(h, i). length h - i))" by simp
next
  fix h :: "node list" and i x
  assume "x = smallest_of h i" "x \<noteq> i"
  with smallest_of_cases [of h i]
  show "((heap_swap h i x, x), (h, i)) \<in> measure (\<lambda>(h, i). length h - i)"
    by auto
qed

declare heap_down.simps [simp del]

definition heap_push :: "node \<Rightarrow> node list \<Rightarrow> node list" where
  "heap_push n h = heap_up (h @ [n]) (length h)"

definition heap_pop :: "node list \<Rightarrow> (node \<times> node list) option" where
  "heap_pop h =
     (if h = [] then None
      else (let top = h ! 0;
                h' = (butlast h)[0 := last h]
            in Some (top, if length h' > 0 then heap_down h' 0 else h')))"

lemma length_heap_up [simp]: "length (heap_up h i) = length h"
proof (induction h i rule: heap_up.induct)
  case (1 h i)
  show ?case
  proof (cases "i > 0 \<and> \<not> freq (h ! ((i - 1) div 2)) \<le> freq (h ! i)")
    case True
    then have "heap_up h i = heap_up (heap_swap h ((i - 1) div 2) i) ((i - 1) div 2)"
      by (subst heap_up.simps) (simp add: Let_def)
    with True "1.IH" [of "(i - 1) div 2"] show ?thesis
      by simp
  next
    case False
    then have "heap_up h i = h"
      by (subst heap_up.simps) (auto simp: Let_def)
    then show ?thesis by simp
  qed
qed

lemma length_heap_down [simp]: "length (heap_down h i) = length h"
proof (induction h i rule: heap_down.induct)
  case (1 h i)
  show ?case
  proof (cases "smallest_of h i = i")
    case True
    then have "heap_down h i = h"
      by (subst heap_down.simps) (simp add: Let_def)
    then show ?thesis by simp
  next
    case False
    then have "heap_down h i = heap_down (heap_swap h i (smallest_of h i)) (smallest_of h i)"
      by (subst heap_down.simps) (simp add: Let_def)
    with False "1.IH" [of "smallest_of h i"] show ?thesis
      by simp
  qed
qed

lemma length_heap_push [simp]: "length (heap_push n h) = Suc (length h)"
  by (simp add: heap_push_def)

lemma length_heap_pop:
  "heap_pop h = Some (a, h') \<Longrightarrow> Suc (length h') = length h"
proof -
  assume pop: "heap_pop h = Some (a, h')"
  then have ne: "h \<noteq> []"
    by (auto simp: heap_pop_def)
  then have "length ((butlast h)[0 := last h]) = length h - 1"
    by simp
  moreover from pop ne have "h' = (butlast h)[0 := last h] \<or>
      h' = heap_down ((butlast h)[0 := last h]) 0"
    by (auto simp: heap_pop_def Let_def split: if_splits)
  then have "length h' = length ((butlast h)[0 := last h])"
    by (elim disjE) (simp_all only: length_heap_down)
  moreover from ne have "length h > 0"
    by simp
  ultimately show ?thesis
    by simp
qed

section \<open>Counting frequencies\<close>

text \<open>
  A C string is the list of its bytes before the terminating NUL; the command list is a
  parameter (the program calls the function on its constant \<^verbatim>\<open>COMMANDS\<close> array).
\<close>

definition count_char_freq :: "string list \<Rightarrow> freq_table" where
  "count_char_freq cmds =
     fold (\<lambda>cmd f. fold (\<lambda>p f. f(of_char p := f (of_char p) + 1)) cmd f) cmds (\<lambda>c. 0)"

section \<open>Building the tree and the code table\<close>

text \<open>
  The first loop of \<^verbatim>\<open>build_char_codes\<close>: for \<open>c = 0 .. 255\<close>, clear the entry and push
  a leaf for every nonzero frequency. The state is \<open>(char_codes, heap, n_used)\<close>.
  The global array \<^verbatim>\<open>char_codes\<close> holds whatever an earlier call left in it: its
  contents on entry are the parameter \<open>cc0\<close>, a list of \<^verbatim>\<open>NUM_CHARS\<close> entries.
\<close>

definition zero_entry :: CodeEntry where
  "zero_entry = \<lparr>code = 0, len = 0\<rparr>"

definition init_step :: "freq_table \<Rightarrow> nat \<Rightarrow> code_table \<times> node list \<times> int \<Rightarrow> code_table \<times> node list \<times> int" where
  "init_step fr c s =
     (case s of (cc, h, n_used) \<Rightarrow>
        (let cc = cc[c := zero_entry] in
         if fr c = 0 then (cc, h, n_used)
         else (cc, heap_push (Leaf c (fr c)) h, n_used + 1)))"

definition init_loop :: "freq_table \<Rightarrow> code_table \<Rightarrow> code_table \<times> node list \<times> int" where
  "init_loop fr cc0 = fold (init_step fr) [0..<NUM_CHARS] (cc0, [], 0)"

text \<open>The second loop: while more than one node is left, merge the two smallest.\<close>

function merge_loop :: "node list \<Rightarrow> (fault + node list)" where
  "merge_loop h =
     (if length h > 1 then
        (case heap_pop h of
           None \<Rightarrow> Inl EmptyHeapPop
         | Some (a, h1) \<Rightarrow>
            (case heap_pop h1 of
               None \<Rightarrow> Inl EmptyHeapPop
             | Some (b, h2) \<Rightarrow>
                 merge_loop (heap_push (Inner (freq a + freq b) a b) h2)))
      else Inr h)"
  by pat_completeness auto
termination
proof (relation "measure length")
  show "wf (measure length)" by simp
next
  fix h :: "node list" and x2 a h1 x2a b h2
  assume "1 < length h" "heap_pop h = Some x2" "(a, h1) = x2"
    "heap_pop h1 = Some x2a" "(b, h2) = x2a"
  then have "Suc (length h1) = length h" "Suc (length h2) = length h1"
    using length_heap_pop by metis+
  then show "(heap_push (Inner (freq a + freq b) a b) h2, h) \<in> measure length"
    by simp
qed

declare merge_loop.simps [simp del]

text \<open>
  The depth-first traversal with its explicit stack of \<^verbatim>\<open>MAX_CODE_LEN * 2\<close> frames.
  A frame is \<open>(n, code, len)\<close>; the head of the list is the top of the stack, so
  \<^verbatim>\<open>sp\<close> is the length of the list. Popping an internal node writes the right child
  at \<^verbatim>\<open>stack[sp]\<close> and the left child at \<^verbatim>\<open>stack[sp + 1]\<close>; the second write is past
  the array when \<^verbatim>\<open>sp + 1 \<ge> 128\<close>.
\<close>

type_synonym StackFrame = "node \<times> ulong \<times> int"

fun nodes :: "node \<Rightarrow> nat" where
  "nodes (Leaf s w) = 1"
| "nodes (Inner w l r) = 1 + nodes l + nodes r"

function dfs :: "StackFrame list \<Rightarrow> code_table \<Rightarrow> fault + code_table" where
  "dfs [] cc = Inr cc"
| "dfs ((Leaf s w, c, l) # st) cc = dfs st (cc[s := \<lparr>code = c, len = l\<rparr>])"
| "dfs ((Inner w lt rt, c, l) # st) cc =
     (if length st + 2 > MAX_CODE_LEN * 2 then Inl StackOutOfBounds
      else dfs ((lt, push_bit 1 c, l + 1) # (rt, push_bit 1 c OR 1, l + 1) # st) cc)"
  by pat_completeness auto
termination
  by (relation "measure (\<lambda>(st, cc). sum_list (map (\<lambda>f. nodes (fst f)) st))") auto

text \<open>
  \<^verbatim>\<open>build_char_codes\<close>. The tree is freed after the traversal; that leaves the code
  table unchanged and is not modelled. \<open>huffman_root\<close> is the value of the variable
  \<^verbatim>\<open>root\<close> when the function returns (\<open>None\<close> for \<^verbatim>\<open>NULL\<close>).
\<close>

definition huffman_root :: "freq_table \<Rightarrow> code_table \<Rightarrow> fault + node option" where
  "huffman_root fr cc0 =
     (case init_loop fr cc0 of (cc, h, n_used) \<Rightarrow>
        if n_used = 0 then Inr None
        else (case merge_loop h of
                Inl e \<Rightarrow> Inl e
              | Inr h1 \<Rightarrow>
                 (case heap_pop h1 of
                    None \<Rightarrow> Inl EmptyHeapPop
                  | Some (r, h2) \<Rightarrow> Inr (Some r))))"

definition build_char_codes :: "freq_table \<Rightarrow> code_table \<Rightarrow> fault + code_table" where
  "build_char_codes fr cc0 =
     (case init_loop fr cc0 of (cc, h, n_used) \<Rightarrow>
        if n_used = 0 then Inr cc
        else (case merge_loop h of
                Inl e \<Rightarrow> Inl e
              | Inr h1 \<Rightarrow>
                 (case heap_pop h1 of
                    None \<Rightarrow> Inl EmptyHeapPop
                  | Some (r, h2) \<Rightarrow> dfs [(r, 0, 0)] cc)))"

section \<open>Encoding\<close>

text \<open>
  \<^verbatim>\<open>encode_command\<close> adds the code lengths in an \<^verbatim>\<open>int\<close> and returns
  \<open>(bits, bytes)\<close>. The division of C truncates towards zero.
\<close>

definition c_div :: "int \<Rightarrow> int \<Rightarrow> int" where
  "c_div a b = sgn a * sgn b * (\<bar>a\<bar> div \<bar>b\<bar>)"

definition int_add :: "int \<Rightarrow> int \<Rightarrow> fault + int" where
  "int_add a b = (if INT_MIN \<le> a + b \<and> a + b \<le> INT_MAX then Inr (a + b) else Inl SignedOverflow)"

fun encode_loop :: "code_table \<Rightarrow> int \<Rightarrow> string \<Rightarrow> fault + int" where
  "encode_loop cc bits [] = Inr bits"
| "encode_loop cc bits (p # ps) =
     (case int_add bits (len (cc ! of_char p)) of
        Inl e \<Rightarrow> Inl e
      | Inr bits' \<Rightarrow> encode_loop cc bits' ps)"

definition encode_command :: "code_table \<Rightarrow> string \<Rightarrow> fault + (int \<times> int)" where
  "encode_command cc cmd =
     (case encode_loop cc 0 cmd of
        Inl e \<Rightarrow> Inl e
      | Inr bits \<Rightarrow>
         (case int_add bits 7 of
            Inl e \<Rightarrow> Inl e
          | Inr b7 \<Rightarrow> Inr (bits, c_div b7 8)))"

section \<open>The heap keeps its elements\<close>

lemma mset_heap_swap [simp]:
  "i < length h \<Longrightarrow> j < length h \<Longrightarrow> mset (heap_swap h i j) = mset h"
  by (simp add: heap_swap_def Let_def mset_swap)

lemma mset_heap_up: "i < length h \<Longrightarrow> mset (heap_up h i) = mset h"
proof (induction h i rule: heap_up.induct)
  case (1 h i)
  show ?case
  proof (cases "i > 0 \<and> \<not> freq (h ! ((i - 1) div 2)) \<le> freq (h ! i)")
    case True
    then have "heap_up h i = heap_up (heap_swap h ((i - 1) div 2) i) ((i - 1) div 2)"
      by (subst heap_up.simps) (simp add: Let_def)
    moreover have "(i - 1) div 2 < length h"
      using "1.prems" by simp
    ultimately show ?thesis
      using True "1.IH" [of "(i - 1) div 2"] "1.prems" by simp
  next
    case False
    then have "heap_up h i = h"
      by (subst heap_up.simps) (auto simp: Let_def)
    then show ?thesis by simp
  qed
qed

lemma mset_heap_down: "i < length h \<Longrightarrow> mset (heap_down h i) = mset h"
proof (induction h i rule: heap_down.induct)
  case (1 h i)
  show ?case
  proof (cases "smallest_of h i = i")
    case True
    then have "heap_down h i = h"
      by (subst heap_down.simps) (simp add: Let_def)
    then show ?thesis by simp
  next
    case False
    then have step: "heap_down h i = heap_down (heap_swap h i (smallest_of h i)) (smallest_of h i)"
      by (subst heap_down.simps) (simp add: Let_def)
    from False smallest_of_cases [of h i] have lt: "smallest_of h i < length h"
      by auto
    with False "1.IH" [of "smallest_of h i"] "1.prems" step show ?thesis
      by simp
  qed
qed

lemma mset_heap_push [simp]: "mset (heap_push n h) = add_mset n (mset h)"
  by (simp add: heap_push_def mset_heap_up)

lemma mset_butlast_update:
  "length h > 1 \<Longrightarrow> add_mset (h ! 0) (mset ((butlast h)[0 := last h])) = mset h"
proof (cases h)
  case Nil
  assume "length h > 1"
  with Nil show ?thesis by simp
next
  case (Cons x xs)
  assume "length h > 1"
  with Cons have ne: "xs \<noteq> []" by auto
  then have "mset xs = mset (butlast xs @ [last xs])"
    by simp
  then have "mset (last xs # butlast xs) = mset xs"
    by simp
  with Cons ne show ?thesis
    by simp
qed

lemma mset_heap_pop:
  assumes "heap_pop h = Some (a, h')"
  shows "mset h = add_mset a (mset h')"
proof -
  from assms have ne: "h \<noteq> []" and a: "a = h ! 0"
    by (auto simp: heap_pop_def Let_def split: if_splits)
  show ?thesis
  proof (cases "length h > 1")
    case True
    then have pos: "0 < length ((butlast h)[0 := last h])" by simp
    with assms ne have "h' = heap_down ((butlast h)[0 := last h]) 0"
      by (simp add: heap_pop_def Let_def del: length_greater_0_conv)
    with pos have "mset h' = mset ((butlast h)[0 := last h])"
      by (simp only: mset_heap_down)
    with mset_butlast_update [OF True] a show ?thesis
      by simp
  next
    case False
    with ne obtain x where h: "h = [x]"
      by (cases h) auto
    with assms show ?thesis
      by (simp add: heap_pop_def)
  qed
qed

section \<open>The first loop\<close>

lemma clear_replicate:
  "fold (\<lambda>c cc. cc[c := zero_entry]) cs (replicate k zero_entry) = replicate k zero_entry"
proof (induction cs)
  case Nil
  show ?case by simp
next
  case (Cons c cs)
  have "(replicate k zero_entry)[c := zero_entry] = replicate k zero_entry"
    by (cases "c < k") (simp_all add: list_eq_iff_nth_eq nth_list_update)
  with Cons show ?case by simp
qed

definition leaf_of :: "freq_table \<Rightarrow> nat \<Rightarrow> node" where
  "leaf_of fr c = Leaf c (fr c)"

definition used :: "freq_table \<Rightarrow> nat list \<Rightarrow> nat list" where
  "used fr cs = filter (\<lambda>c. fr c \<noteq> 0) cs"

lemma init_fold:
  "\<exists>h'. fold (init_step fr) cs (cc, h, n) =
          (fold (\<lambda>c cc. cc[c := zero_entry]) cs cc, h', n + int (length (used fr cs))) \<and>
        mset h' = mset h + mset (map (leaf_of fr) (used fr cs))"
proof (induction cs arbitrary: cc h n)
  case Nil
  show ?case by (simp add: used_def)
next
  case (Cons c cs)
  show ?case
  proof (cases "fr c = 0")
    case True
    then have "init_step fr c (cc, h, n) = (cc[c := zero_entry], h, n)"
      by (simp add: init_step_def)
    with Cons [of "cc[c := zero_entry]" h n] True show ?thesis
      by (simp add: used_def)
  next
    case False
    then have "init_step fr c (cc, h, n) = (cc[c := zero_entry], heap_push (Leaf c (fr c)) h, n + 1)"
      by (simp add: init_step_def)
    with Cons [of "cc[c := zero_entry]" "heap_push (Leaf c (fr c)) h" "n + 1"] False show ?thesis
      by (auto simp: used_def leaf_of_def)
  qed
qed

lemma init_loop_eq:
  "\<exists>h. init_loop fr (replicate NUM_CHARS zero_entry) = (replicate NUM_CHARS zero_entry, h, int (length (used fr [0..<NUM_CHARS]))) \<and>
       mset h = mset (map (leaf_of fr) (used fr [0..<NUM_CHARS]))"
  using init_fold [of fr "[0..<NUM_CHARS]" "replicate NUM_CHARS zero_entry" "[]" 0]
  by (simp add: init_loop_def clear_replicate)

text \<open>
  The first loop overwrites every entry of the table it is given, and the heap it
  builds does not depend on that table.
\<close>

lemma clear_nth:
  "length (fold (\<lambda>c cc. cc[c := zero_entry]) cs cc) = length cc \<and>
   (i < length cc \<longrightarrow>
      fold (\<lambda>c cc. cc[c := zero_entry]) cs cc ! i = (if i \<in> set cs then zero_entry else cc ! i))"
  by (induction cs arbitrary: cc) (auto simp: nth_list_update)

lemma clear_all:
  assumes "length cc0 = n"
  shows "fold (\<lambda>c cc. cc[c := zero_entry]) [0..<n] cc0 = replicate n zero_entry"
proof (rule nth_equalityI)
  show "length (fold (\<lambda>c cc. cc[c := zero_entry]) [0..<n] cc0) = length (replicate n zero_entry)"
    using clear_nth [of "[0..<n]" cc0] assms by simp
next
  fix i assume "i < length (fold (\<lambda>c cc. cc[c := zero_entry]) [0..<n] cc0)"
  then have "i < n"
    using clear_nth [of "[0..<n]" cc0] assms by simp
  then show "fold (\<lambda>c cc. cc[c := zero_entry]) [0..<n] cc0 ! i = replicate n zero_entry ! i"
    using clear_nth [of "[0..<n]" cc0 i] assms by simp
qed

lemma init_fold_fst:
  "fst (fold (init_step fr) cs (cc, h, n)) = fold (\<lambda>c cc. cc[c := zero_entry]) cs cc"
  using init_fold [of fr cs cc h n] by auto

lemma init_fold_snd:
  "snd (fold (init_step fr) cs (cc, h, n)) = snd (fold (init_step fr) cs (cc', h, n))"
proof (induction cs arbitrary: cc cc' h n)
  case Nil
  show ?case by simp
next
  case (Cons c cs)
  show ?case
  proof (cases "fr c = 0")
    case True
    then have "init_step fr c (cc, h, n) = (cc[c := zero_entry], h, n)"
      "init_step fr c (cc', h, n) = (cc'[c := zero_entry], h, n)"
      by (simp_all add: init_step_def)
    with Cons [of "cc[c := zero_entry]" h n "cc'[c := zero_entry]"] show ?thesis
      by simp
  next
    case False
    then have "init_step fr c (cc, h, n) = (cc[c := zero_entry], heap_push (Leaf c (fr c)) h, n + 1)"
      "init_step fr c (cc', h, n) = (cc'[c := zero_entry], heap_push (Leaf c (fr c)) h, n + 1)"
      by (simp_all add: init_step_def)
    with Cons [of "cc[c := zero_entry]" "heap_push (Leaf c (fr c)) h" "n + 1" "cc'[c := zero_entry]"]
    show ?thesis
      by simp
  qed
qed

lemma init_loop_any:
  assumes "length cc0 = NUM_CHARS"
  shows "init_loop fr cc0 = init_loop fr (replicate NUM_CHARS zero_entry)"
proof (rule prod_eqI)
  show "fst (init_loop fr cc0) = fst (init_loop fr (replicate NUM_CHARS zero_entry))"
    unfolding init_loop_def init_fold_fst
    by (simp add: clear_all [OF assms] clear_all)
  show "snd (init_loop fr cc0) = snd (init_loop fr (replicate NUM_CHARS zero_entry))"
    unfolding init_loop_def by (rule init_fold_snd)
qed

lemma build_char_codes_any:
  "length cc0 = NUM_CHARS \<Longrightarrow>
   build_char_codes fr cc0 = build_char_codes fr (replicate NUM_CHARS zero_entry)"
  using init_loop_any [of cc0 fr] by (simp add: build_char_codes_def)

lemma huffman_root_any:
  "length cc0 = NUM_CHARS \<Longrightarrow>
   huffman_root fr cc0 = huffman_root fr (replicate NUM_CHARS zero_entry)"
  using init_loop_any [of cc0 fr] by (simp add: huffman_root_def)

section \<open>The heap order when sifting up\<close>

definition parent :: "nat \<Rightarrow> nat" where
  "parent i = (i - 1) div 2"

definition is_heap :: "node list \<Rightarrow> bool" where
  "is_heap h = (\<forall>j<length h. 0 < j \<longrightarrow> freq (h ! parent j) \<le> freq (h ! j))"

text \<open>All parent-child pairs are in order except the pair above index \<open>i\<close>.\<close>

definition heap_but_above :: "node list \<Rightarrow> nat \<Rightarrow> bool" where
  "heap_but_above h i =
     ((\<forall>j<length h. 0 < j \<longrightarrow> j \<noteq> i \<longrightarrow> freq (h ! parent j) \<le> freq (h ! j)) \<and>
      (\<forall>j<length h. 0 < j \<longrightarrow> 0 < i \<longrightarrow> parent j = i \<longrightarrow> freq (h ! parent i) \<le> freq (h ! j)))"

text \<open>All parent-child pairs are in order except the pairs below index \<open>i\<close>.\<close>

definition heap_but_below :: "node list \<Rightarrow> nat \<Rightarrow> bool" where
  "heap_but_below h i =
     ((\<forall>j<length h. 0 < j \<longrightarrow> parent j \<noteq> i \<longrightarrow> freq (h ! parent j) \<le> freq (h ! j)) \<and>
      (\<forall>j<length h. 0 < j \<longrightarrow> 0 < i \<longrightarrow> parent j = i \<longrightarrow> freq (h ! parent i) \<le> freq (h ! j)))"

lemma parent_less: "0 < j \<Longrightarrow> parent j < j"
  by (auto simp: parent_def)

lemma parent_child: "0 < j \<Longrightarrow> parent j = i \<longleftrightarrow> j = 2 * i + 1 \<or> j = 2 * i + 2"
  by (auto simp: parent_def)

lemma nth_heap_swap:
  "i < length h \<Longrightarrow> j < length h \<Longrightarrow>
   heap_swap h i j ! k = (if k = j then h ! i else if k = i then h ! j else h ! k)"
  by (simp add: heap_swap_def Let_def nth_list_update)

lemma heap_up_fix:
  "heap_but_above h i \<Longrightarrow> (0 < i \<Longrightarrow> freq (h ! parent i) \<le> freq (h ! i)) \<Longrightarrow> is_heap h"
  unfolding heap_but_above_def is_heap_def by metis

lemma heap_up_step:
  assumes inv: "heap_but_above h i" and i: "i < length h" "0 < i"
    and gt: "\<not> freq (h ! parent i) \<le> freq (h ! i)"
  shows "heap_but_above (heap_swap h (parent i) i) (parent i)"
proof -
  let ?p = "parent i"
  let ?h = "heap_swap h ?p i"
  from i have p: "?p < i" "?p < length h"
    using parent_less [of i] by simp_all
  from gt have lt: "freq (h ! i) \<le> freq (h ! ?p)"
    by simp
  have nth: "\<And>k. ?h ! k = (if k = i then h ! ?p else if k = ?p then h ! i else h ! k)"
    using nth_heap_swap [OF p(2) i(1)] by simp
  have up: "\<And>j. j < length h \<Longrightarrow> 0 < j \<Longrightarrow> j \<noteq> i \<Longrightarrow> freq (h ! parent j) \<le> freq (h ! j)"
    using inv unfolding heap_but_above_def by blast
  have down: "\<And>j. j < length h \<Longrightarrow> 0 < j \<Longrightarrow> parent j = i \<Longrightarrow> freq (h ! ?p) \<le> freq (h ! j)"
    using inv i(2) unfolding heap_but_above_def by blast
  have one: "freq (?h ! parent j) \<le> freq (?h ! j)"
    if j: "j < length h" "0 < j" "j \<noteq> ?p" for j
  proof (cases "j = i")
    case True
    with lt p show ?thesis by (simp add: nth)
  next
    case ji: False
    have pj: "parent j < j" using j(2) by (rule parent_less)
    show ?thesis
    proof (cases "parent j = i")
      case True
      with down [OF j(1,2)] ji j(3) p show ?thesis
        by (simp add: nth)
    next
      case pji: False
      show ?thesis
      proof (cases "parent j = ?p")
        case True
        from up [OF j(1,2) ji] True lt have "freq (h ! i) \<le> freq (h ! j)"
          by simp
        with True ji j(3) p show ?thesis
          by (simp add: nth)
      next
        case False
        with pji ji j(3) up [OF j(1,2) ji] show ?thesis
          by (simp add: nth)
      qed
    qed
  qed
  have two: "freq (?h ! parent ?p) \<le> freq (?h ! j)"
    if j: "j < length h" "0 < j" "0 < ?p" "parent j = ?p" for j
  proof -
    have pp: "parent ?p < ?p" using j(3) by (rule parent_less)
    from up [OF p(2) j(3)] p have a: "freq (h ! parent ?p) \<le> freq (h ! ?p)"
      by simp
    show ?thesis
    proof (cases "j = i")
      case True
      with a pp p show ?thesis by (simp add: nth)
    next
      case False
      from up [OF j(1,2) False] j(4) have "freq (h ! ?p) \<le> freq (h ! j)"
        by simp
      with a have "freq (h ! parent ?p) \<le> freq (h ! j)"
        by simp
      moreover from j have "j \<noteq> ?p" using parent_less [of j] by simp
      ultimately show ?thesis
        using False pp p by (simp add: nth)
    qed
  qed
  show ?thesis
    unfolding heap_but_above_def using one two by simp
qed

lemma is_heap_heap_up:
  "i < length h \<Longrightarrow> heap_but_above h i \<Longrightarrow> is_heap (heap_up h i)"
proof (induction h i rule: heap_up.induct)
  case (1 h i)
  show ?case
  proof (cases "0 < i \<and> \<not> freq (h ! parent i) \<le> freq (h ! i)")
    case True
    then have eq: "heap_up h i = heap_up (heap_swap h (parent i) i) (parent i)"
      by (subst heap_up.simps) (simp add: Let_def parent_def)
    from True "1.prems" have "heap_but_above (heap_swap h (parent i) i) (parent i)"
      by (intro heap_up_step) simp_all
    moreover from True "1.prems" have "parent i < length (heap_swap h (parent i) i)"
      using parent_less [of i] by simp
    ultimately have "is_heap (heap_up (heap_swap h (parent i) i) (parent i))"
      using True "1.IH" [of "parent i"] by (simp add: parent_def)
    with eq show ?thesis by simp
  next
    case False
    then have "heap_up h i = h"
      by (subst heap_up.simps) (auto simp: Let_def parent_def)
    moreover from False "1.prems" have "is_heap h"
      by (intro heap_up_fix [of h i]) auto
    ultimately show ?thesis by simp
  qed
qed

lemma is_heap_heap_push:
  assumes "is_heap h"
  shows "is_heap (heap_push n h)"
proof -
  have "heap_but_above (h @ [n]) (length h)"
    unfolding heap_but_above_def
  proof (intro conjI allI impI)
    fix j
    assume "j < length (h @ [n])" "0 < j" "j \<noteq> length h"
    then have j: "j < length h" by simp
    with \<open>0 < j\<close> have "parent j < length h"
      using parent_less [of j] by simp
    with j \<open>0 < j\<close> assms show "freq ((h @ [n]) ! parent j) \<le> freq ((h @ [n]) ! j)"
      by (simp add: is_heap_def nth_append)
  next
    fix j
    assume "j < length (h @ [n])" "0 < j" "parent j = length h"
    with parent_less [of j] have False by simp
    then show "freq ((h @ [n]) ! parent (length h)) \<le> freq ((h @ [n]) ! j)" ..
  qed
  then show ?thesis
    unfolding heap_push_def by (intro is_heap_heap_up) simp_all
qed

section \<open>The heap order when sifting down\<close>

lemma smallest_of_self:
  assumes "smallest_of h i = i" "c < length h" "c = 2 * i + 1 \<or> c = 2 * i + 2"
  shows "freq (h ! i) \<le> freq (h ! c)"
  using assms unfolding smallest_of_def Let_def
  by (auto simp: not_less split: if_splits)

lemma smallest_of_other:
  assumes "smallest_of h i \<noteq> i"
  shows "smallest_of h i < length h"
    and "smallest_of h i = 2 * i + 1 \<or> smallest_of h i = 2 * i + 2"
    and "freq (h ! smallest_of h i) \<le> freq (h ! i)"
    and "\<And>c. c < length h \<Longrightarrow> c = 2 * i + 1 \<or> c = 2 * i + 2 \<Longrightarrow>
           freq (h ! smallest_of h i) \<le> freq (h ! c)"
proof -
  show "smallest_of h i < length h"
    using assms smallest_of_cases [of h i] by auto
  show "smallest_of h i = 2 * i + 1 \<or> smallest_of h i = 2 * i + 2"
    using assms smallest_of_cases [of h i] by auto
  show "freq (h ! smallest_of h i) \<le> freq (h ! i)"
    using assms unfolding smallest_of_def Let_def
    by (auto simp: not_less split: if_splits)
  show "freq (h ! smallest_of h i) \<le> freq (h ! c)"
    if "c < length h" "c = 2 * i + 1 \<or> c = 2 * i + 2" for c
    using assms that unfolding smallest_of_def Let_def
    by (auto simp: not_less split: if_splits)
qed

lemma heap_down_fix:
  assumes "heap_but_below h i" "smallest_of h i = i"
  shows "is_heap h"
  unfolding is_heap_def
proof (intro allI impI)
  fix j
  assume j: "j < length h" "0 < j"
  show "freq (h ! parent j) \<le> freq (h ! j)"
  proof (cases "parent j = i")
    case True
    with j have "j = 2 * i + 1 \<or> j = 2 * i + 2"
      by (simp add: parent_child)
    with smallest_of_self [OF assms(2) j(1)] True show ?thesis
      by simp
  next
    case False
    with assms(1) j show ?thesis
      unfolding heap_but_below_def by blast
  qed
qed

lemma heap_down_step:
  assumes inv: "heap_but_below h i" and i: "i < length h"
    and ne: "smallest_of h i \<noteq> i"
  shows "heap_but_below (heap_swap h i (smallest_of h i)) (smallest_of h i)"
proof -
  let ?s = "smallest_of h i"
  let ?h = "heap_swap h i ?s"
  note s = smallest_of_other [OF ne]
  from s(2) have si: "i < ?s" "parent ?s = i" "0 < ?s"
    by (auto simp: parent_def)
  have nth: "\<And>k. ?h ! k = (if k = ?s then h ! i else if k = i then h ! ?s else h ! k)"
    using nth_heap_swap [OF i s(1)] by simp
  have other: "\<And>j. j < length h \<Longrightarrow> 0 < j \<Longrightarrow> parent j \<noteq> i \<Longrightarrow>
      freq (h ! parent j) \<le> freq (h ! j)"
    using inv unfolding heap_but_below_def by blast
  have above: "\<And>j. j < length h \<Longrightarrow> 0 < j \<Longrightarrow> 0 < i \<Longrightarrow> parent j = i \<Longrightarrow>
      freq (h ! parent i) \<le> freq (h ! j)"
    using inv unfolding heap_but_below_def by blast
  have one: "freq (?h ! parent j) \<le> freq (?h ! j)"
    if j: "j < length h" "0 < j" "parent j \<noteq> ?s" for j
  proof (cases "parent j = i")
    case True
    with j have c: "j = 2 * i + 1 \<or> j = 2 * i + 2"
      by (simp add: parent_child)
    show ?thesis
    proof (cases "j = ?s")
      case True
      with s(3) si show ?thesis by (simp add: nth)
    next
      case False
      from c have "j \<noteq> i" by auto
      with False True s(4) [OF j(1) c] ne show ?thesis
        by (simp add: nth)
    qed
  next
    case pj: False
    from j(2) have lt: "parent j < j" by (rule parent_less)
    show ?thesis
    proof (cases "j = i")
      case True
      with j(2) have "0 < i" by simp
      from above [OF s(1) si(3) this si(2)] have "freq (h ! parent i) \<le> freq (h ! ?s)" .
      moreover from True lt si have "parent j \<noteq> ?s" "parent j \<noteq> i" by simp_all
      ultimately show ?thesis
        using True si by (simp add: nth)
    next
      case False
      moreover have "j \<noteq> ?s" using pj si by auto
      ultimately show ?thesis
        using pj j(3) other [OF j(1,2) pj] by (simp add: nth)
    qed
  qed
  have two: "freq (?h ! parent ?s) \<le> freq (?h ! j)"
    if j: "j < length h" "0 < j" "parent j = ?s" for j
  proof -
    from j(2) have lt: "parent j < j" by (rule parent_less)
    with j(3) si have "j \<noteq> ?s" "j \<noteq> i" "parent j \<noteq> i" by simp_all
    with other [OF j(1,2)] j(3) si show ?thesis
      by (simp add: nth)
  qed
  show ?thesis
    unfolding heap_but_below_def using one two by simp
qed

lemma is_heap_heap_down:
  "i < length h \<Longrightarrow> heap_but_below h i \<Longrightarrow> is_heap (heap_down h i)"
proof (induction h i rule: heap_down.induct)
  case (1 h i)
  show ?case
  proof (cases "smallest_of h i = i")
    case True
    then have "heap_down h i = h"
      by (subst heap_down.simps) (simp add: Let_def)
    with heap_down_fix [OF "1.prems"(2) True] show ?thesis
      by simp
  next
    case False
    then have eq: "heap_down h i = heap_down (heap_swap h i (smallest_of h i)) (smallest_of h i)"
      by (subst heap_down.simps) (simp add: Let_def)
    have "is_heap (heap_down (heap_swap h i (smallest_of h i)) (smallest_of h i))"
      using False smallest_of_other(1) [OF False] heap_down_step [OF "1.prems"(2,1) False]
      by (intro "1.IH" [of "smallest_of h i"]) simp_all
    with eq show ?thesis by simp
  qed
qed

lemma is_heap_root_min:
  assumes "is_heap h"
  shows "j < length h \<Longrightarrow> freq (h ! 0) \<le> freq (h ! j)"
proof (induction j rule: less_induct)
  case (less j)
  show ?case
  proof (cases "j = 0")
    case True
    then show ?thesis by simp
  next
    case False
    then have lt: "parent j < j" by (simp add: parent_less)
    with less.prems have "freq (h ! 0) \<le> freq (h ! parent j)"
      by (intro less.IH) simp_all
    moreover from assms less.prems False have "freq (h ! parent j) \<le> freq (h ! j)"
      by (simp add: is_heap_def)
    ultimately show ?thesis by simp
  qed
qed

lemma heap_pop_min:
  assumes "is_heap h" "heap_pop h = Some (a, h')"
  shows "is_heap h'" and "\<forall>x\<in>set h. freq a \<le> freq x"
proof -
  from assms(2) have ne: "h \<noteq> []" and a: "a = h ! 0"
    by (auto simp: heap_pop_def Let_def split: if_splits)
  show "\<forall>x\<in>set h. freq a \<le> freq x"
    using is_heap_root_min [OF assms(1)] a by (auto simp: in_set_conv_nth)
  let ?h1 = "(butlast h)[0 := last h]"
  show "is_heap h'"
  proof (cases "length h > 1")
    case True
    then have pos: "0 < length ?h1" by simp
    with assms(2) ne have h': "h' = heap_down ?h1 0"
      by (simp add: heap_pop_def Let_def del: length_greater_0_conv)
    have "heap_but_below ?h1 0"
      unfolding heap_but_below_def
    proof (intro conjI allI impI)
      fix j
      assume j: "j < length ?h1" "0 < j" "parent j \<noteq> 0"
      then have jl: "j < length h - 1" "j < length h" by simp_all
      from j(2) have "parent j < j" by (rule parent_less)
      with jl j(3) have "?h1 ! parent j = h ! parent j" "?h1 ! j = h ! j"
        using j(2) by (simp_all add: nth_butlast)
      with assms(1) jl(2) j(2) show "freq (?h1 ! parent j) \<le> freq (?h1 ! j)"
        by (simp add: is_heap_def)
    next
      fix j :: nat
      assume "0 < (0::nat)"
      then show "freq (?h1 ! parent 0) \<le> freq (?h1 ! j)" by simp
    qed
    with pos h' show ?thesis
      by (simp only: is_heap_heap_down)
  next
    case False
    with ne obtain x where "h = [x]"
      by (cases h) auto
    with assms(2) show ?thesis
      by (simp add: heap_pop_def is_heap_def)
  qed
qed

section \<open>The merging loop\<close>

lemma is_heap_init_fold:
  "is_heap h \<Longrightarrow> is_heap (fst (snd (fold (init_step fr) cs (cc, h, n))))"
proof (induction cs arbitrary: cc h n)
  case Nil
  then show ?case by simp
next
  case (Cons c cs)
  show ?case
  proof (cases "fr c = 0")
    case True
    then have "init_step fr c (cc, h, n) = (cc[c := zero_entry], h, n)"
      by (simp add: init_step_def)
    with Cons show ?thesis by simp
  next
    case False
    then have "init_step fr c (cc, h, n) = (cc[c := zero_entry], heap_push (Leaf c (fr c)) h, n + 1)"
      by (simp add: init_step_def)
    with Cons.IH [OF is_heap_heap_push [OF Cons.prems]] show ?thesis by simp
  qed
qed

lemma is_heap_init_loop: "is_heap (fst (snd (init_loop fr (replicate NUM_CHARS zero_entry))))"
  unfolding init_loop_def by (rule is_heap_init_fold) (simp add: is_heap_def)

lemma heap_pop_Some: "h \<noteq> [] \<Longrightarrow> \<exists>a h'. heap_pop h = Some (a, h')"
  by (simp add: heap_pop_def Let_def)

text \<open>
  The rule for the merging loop: a property of the multiset of trees in the heap that
  holds at the start and is kept when the two trees popped (the first a minimum of
  all, the second a minimum of the rest) are replaced by their parent, holds for the
  single tree the loop ends with.
\<close>

lemma merge_loop_rule:
  assumes step: "\<And>F a b. P (add_mset a (add_mset b F)) \<Longrightarrow> freq a \<le> freq b \<Longrightarrow>
      (\<forall>x\<in>#F. freq b \<le> freq x) \<Longrightarrow> P (add_mset (Inner (freq a + freq b) a b) F)"
  shows "h \<noteq> [] \<Longrightarrow> is_heap h \<Longrightarrow> P (mset h) \<Longrightarrow> \<exists>t. merge_loop h = Inr [t] \<and> P {#t#}"
proof (induction h rule: merge_loop.induct)
  case (1 h)
  show ?case
  proof (cases "length h > 1")
    case False
    with "1.prems"(1) obtain t where h: "h = [t]"
      by (cases h) auto
    then have "merge_loop h = Inr [t]"
      by (subst merge_loop.simps) simp
    with h "1.prems"(3) show ?thesis by simp
  next
    case True
    then have "h \<noteq> []" by auto
    then obtain a h1 where pop1: "heap_pop h = Some (a, h1)"
      using heap_pop_Some by blast
    from length_heap_pop [OF pop1] True have "h1 \<noteq> []" by auto
    then obtain b h2 where pop2: "heap_pop h1 = Some (b, h2)"
      using heap_pop_Some by blast
    let ?p = "Inner (freq a + freq b) a b"
    let ?h = "heap_push ?p h2"
    have eq: "merge_loop h = merge_loop ?h"
      using True pop1 pop2 by (subst merge_loop.simps) simp
    note m1 = heap_pop_min [OF "1.prems"(2) pop1]
    note m2 = heap_pop_min [OF m1(1) pop2]
    have ms: "mset h = add_mset a (add_mset b (mset h2))"
      using mset_heap_pop [OF pop1] mset_heap_pop [OF pop2] by simp
    then have "b \<in> set h"
      by (metis union_single_eq_member add_mset_commute set_mset_mset)
    with m1(2) have ab: "freq a \<le> freq b" by blast
    have "\<forall>x\<in>#mset h2. freq b \<le> freq x"
      using m2(2) mset_heap_pop [OF pop2] by (metis set_mset_mset insert_iff set_mset_add_mset_insert)
    with "1.prems"(3) ab have "P (add_mset ?p (mset h2))"
      unfolding ms by (intro step)
    then have "P (mset ?h)" by simp
    moreover have "is_heap ?h"
      using m2(1) by (rule is_heap_heap_push)
    moreover have "?h \<noteq> []"
      by (metis length_heap_push length_0_conv nat.distinct(1))
    ultimately have "\<exists>t. merge_loop ?h = Inr [t] \<and> P {#t#}"
      using True pop1 pop2 by (intro "1.IH" [of "(a, h1)" a h1 "(b, h2)" b h2]) simp_all
    with eq show ?thesis by simp
  qed
qed

definition leaves_of :: "freq_table \<Rightarrow> node multiset" where
  "leaves_of fr = mset (map (leaf_of fr) (used fr [0..<NUM_CHARS]))"

lemma build_rule:
  assumes step: "\<And>F a b. P (add_mset a (add_mset b F)) \<Longrightarrow> freq a \<le> freq b \<Longrightarrow>
      (\<forall>x\<in>#F. freq b \<le> freq x) \<Longrightarrow> P (add_mset (Inner (freq a + freq b) a b) F)"
    and start: "P (leaves_of fr)" and ne: "leaves_of fr \<noteq> {#}"
  shows "\<exists>t. huffman_root fr (replicate NUM_CHARS zero_entry) = Inr (Some t) \<and> P {#t#} \<and>
             build_char_codes fr (replicate NUM_CHARS zero_entry) = dfs [(t, 0, 0)] (replicate NUM_CHARS zero_entry)"
proof -
  from init_loop_eq [of fr] obtain h where
    h: "init_loop fr (replicate NUM_CHARS zero_entry) = (replicate NUM_CHARS zero_entry, h, int (length (used fr [0..<NUM_CHARS])))"
      "mset h = leaves_of fr"
    unfolding leaves_of_def by blast
  from ne have n: "int (length (used fr [0..<NUM_CHARS])) \<noteq> 0"
    by (simp add: leaves_of_def)
  from h(2) ne have "h \<noteq> []" by auto
  moreover from is_heap_init_loop [of fr] h(1) have "is_heap h" by simp
  moreover from start h(2) have "P (mset h)" by simp
  ultimately obtain t where t: "merge_loop h = Inr [t]" "P {#t#}"
    using merge_loop_rule [of P h, OF step] by blast
  have pop: "heap_pop [t] = Some (t, [])"
    by (simp add: heap_pop_def)
  from h(1) n t(1) pop have "huffman_root fr (replicate NUM_CHARS zero_entry) = Inr (Some t)"
    by (simp add: huffman_root_def)
  moreover from h(1) n t(1) pop have
    "build_char_codes fr (replicate NUM_CHARS zero_entry) = dfs [(t, 0, 0)] (replicate NUM_CHARS zero_entry)"
    by (simp add: build_char_codes_def)
  ultimately show ?thesis using t(2) by blast
qed

section \<open>The traversal\<close>

text \<open>The number of stack slots the traversal of a tree uses, the tree's own included.\<close>

fun need :: "node \<Rightarrow> nat" where
  "need (Leaf s w) = 1"
| "need (Inner w l r) = max (1 + need l) (need r)"

fun height_node :: "node \<Rightarrow> nat" where
  "height_node (Leaf s w) = 0"
| "height_node (Inner w l r) = 1 + max (height_node l) (height_node r)"

text \<open>What the traversal of one tree writes into the table.\<close>

fun assign :: "node \<Rightarrow> ulong \<Rightarrow> int \<Rightarrow> code_table \<Rightarrow> code_table" where
  "assign (Leaf s w) c l cc = cc[s := \<lparr>code = c, len = l\<rparr>]"
| "assign (Inner w lt rt) c l cc =
     assign rt (push_bit 1 c OR 1) (l + 1) (assign lt (push_bit 1 c) (l + 1) cc)"

lemma need_pos: "1 \<le> need t"
  by (induction t) auto

lemma need_le_height: "need t \<le> height_node t + 1"
  by (induction t) auto

lemma dfs_assign:
  "length st + need t \<le> MAX_CODE_LEN * 2 \<Longrightarrow> dfs ((t, c, l) # st) cc = dfs st (assign t c l cc)"
proof (induction t arbitrary: st c l cc)
  case (Leaf s w)
  show ?case by simp
next
  case (Inner w lt rt)
  from Inner.prems need_pos [of lt] have room: "\<not> length st + 2 > MAX_CODE_LEN * 2"
    by simp
  from Inner.prems have l: "length ((rt, push_bit 1 c OR 1, l + 1) # st) + need lt \<le> MAX_CODE_LEN * 2"
    and r: "length st + need rt \<le> MAX_CODE_LEN * 2"
    by simp_all
  from room have "dfs ((Inner w lt rt, c, l) # st) cc =
      dfs ((lt, push_bit 1 c, l + 1) # (rt, push_bit 1 c OR 1, l + 1) # st) cc"
    by simp
  also have "\<dots> = dfs ((rt, push_bit 1 c OR 1, l + 1) # st) (assign lt (push_bit 1 c) (l + 1) cc)"
    using l by (rule Inner.IH(1))
  also have "\<dots> = dfs st (assign rt (push_bit 1 c OR 1) (l + 1) (assign lt (push_bit 1 c) (l + 1) cc))"
    using r by (rule Inner.IH(2))
  finally show ?case by simp
qed

lemma dfs_root:
  "need t \<le> MAX_CODE_LEN * 2 \<Longrightarrow> dfs [(t, 0, 0)] cc = Inr (assign t 0 0 cc)"
  using dfs_assign [of "[]" t 0 0 cc] by simp

text \<open>The leaves with their paths from the root: \<open>False\<close> for left, \<open>True\<close> for right.\<close>

fun leaf_paths :: "node \<Rightarrow> (nat \<times> bool list) list" where
  "leaf_paths (Leaf s w) = [(s, [])]"
| "leaf_paths (Inner w l r) =
     map (\<lambda>(s, p). (s, False # p)) (leaf_paths l) @ map (\<lambda>(s, p). (s, True # p)) (leaf_paths r)"

text \<open>The code value after a path: one shift per edge, the low bit set on a right edge.\<close>

definition walk :: "ulong \<Rightarrow> bool list \<Rightarrow> ulong" where
  "walk c p = fold (\<lambda>b c. if b then push_bit 1 c OR 1 else push_bit 1 c) p c"

definition entry_at :: "ulong \<Rightarrow> int \<Rightarrow> bool list \<Rightarrow> CodeEntry" where
  "entry_at c l p = \<lparr>code = walk c p, len = l + int (length p)\<rparr>"

definition write_paths :: "ulong \<Rightarrow> int \<Rightarrow> (nat \<times> bool list) list \<Rightarrow> code_table \<Rightarrow> code_table" where
  "write_paths c l ps cc = fold (\<lambda>(s, p) cc. cc[s := entry_at c l p]) ps cc"

lemma walk_simps [simp]:
  "walk c [] = c"
  "walk c (False # p) = walk (push_bit 1 c) p"
  "walk c (True # p) = walk (push_bit 1 c OR 1) p"
  by (simp_all add: walk_def)

lemma write_paths_append [simp]:
  "write_paths c l (ps @ qs) cc = write_paths c l qs (write_paths c l ps cc)"
  by (simp add: write_paths_def)

lemma write_paths_map_False:
  "write_paths c l (map (\<lambda>(s, p). (s, False # p)) ps) cc = write_paths (push_bit 1 c) (l + 1) ps cc"
  by (induction ps arbitrary: cc) (auto simp: write_paths_def entry_at_def add.assoc)

lemma write_paths_map_True:
  "write_paths c l (map (\<lambda>(s, p). (s, True # p)) ps) cc = write_paths (push_bit 1 c OR 1) (l + 1) ps cc"
  by (induction ps arbitrary: cc) (auto simp: write_paths_def entry_at_def add.assoc)

lemma assign_paths: "assign t c l cc = write_paths c l (leaf_paths t) cc"
proof (induction t arbitrary: c l cc)
  case (Leaf s w)
  show ?case by (simp add: write_paths_def entry_at_def)
next
  case (Inner w lt rt)
  then show ?case
    by (simp add: write_paths_map_False write_paths_map_True)
qed

lemma length_write_paths [simp]: "length (write_paths c l ps cc) = length cc"
  by (induction ps arbitrary: cc) (auto simp: write_paths_def)

lemma write_paths_other:
  "s \<notin> fst ` set ps \<Longrightarrow> write_paths c l ps cc ! s = cc ! s"
  by (induction ps arbitrary: cc) (auto simp: write_paths_def)

lemma write_paths_hit:
  "distinct (map fst ps) \<Longrightarrow> (s, p) \<in> set ps \<Longrightarrow> s < length cc \<Longrightarrow>
   write_paths c l ps cc ! s = entry_at c l p"
proof (induction ps arbitrary: cc)
  case Nil
  then show ?case by simp
next
  case (Cons x xs)
  obtain s' p' where x: "x = (s', p')" by (cases x)
  have unfold: "write_paths c l (x # xs) cc = write_paths c l xs (cc[s' := entry_at c l p'])"
    by (simp add: write_paths_def x)
  show ?case
  proof (cases "(s, p) \<in> set xs")
    case True
    with Cons.prems Cons.IH [of "cc[s' := entry_at c l p']"] unfold show ?thesis
      by simp
  next
    case False
    with Cons.prems x have sp: "s' = s" "p' = p" by auto
    with Cons.prems x have "s \<notin> fst ` set xs" by auto
    then have "write_paths c l xs (cc[s := entry_at c l p]) ! s = (cc[s := entry_at c l p]) ! s"
      by (rule write_paths_other)
    with unfold sp Cons.prems(3) show ?thesis by simp
  qed
qed

section \<open>Length assignments and the cost of merging the two lightest\<close>

text \<open>
  A length assignment is a multiset of pairs (weight, length). It is admissible when
  its lengths satisfy the inequality of Kraft, as the lengths of every prefix-free
  code do.
\<close>

type_synonym assignment = "(nat \<times> nat) multiset"

definition total_cost :: "assignment \<Rightarrow> nat" where
  "total_cost A = (\<Sum>(w, l)\<in>#A. w * l)"

definition kraft_sum :: "nat multiset \<Rightarrow> real" where
  "kraft_sum Ls = (\<Sum>l\<in>#Ls. (1 / 2) ^ l)"

definition admissible :: "assignment \<Rightarrow> bool" where
  "admissible A = (kraft_sum (image_mset snd A) \<le> 1)"

text \<open>The sum of the weights of the merged nodes when the two lightest are merged again and again.\<close>

function merge_cost :: "nat multiset \<Rightarrow> nat" where
  "merge_cost M =
     (if size M \<le> 1 then 0
      else (let x = Min_mset M; M1 = M - {#x#}; y = Min_mset M1
            in x + y + merge_cost (add_mset (x + y) (M1 - {#y#}))))"
  by pat_completeness auto
termination
proof (relation "measure size")
  show "wf (measure size)" by simp
next
  fix M :: "nat multiset" and x M1 y
  assume a: "\<not> size M \<le> 1" "x = Min_mset M" "M1 = M - {#x#}" "y = Min_mset M1"
  then have "M \<noteq> {#}" by auto
  then have x: "x \<in># M" using a(2) by (simp add: Min_in_mset)
  then have s1: "size M1 = size M - 1" using a(3) by (simp add: size_Diff_singleton)
  with a(1) have "M1 \<noteq> {#}" by auto
  then have "y \<in># M1" using a(4) by (simp add: Min_in_mset)
  then have "size (M1 - {#y#}) = size M1 - 1" by (simp add: size_Diff_singleton)
  with s1 a(1) show "(add_mset (x + y) (M1 - {#y#}), M) \<in> measure size"
    by simp
qed

declare merge_cost.simps [simp del]

lemma total_cost_simps [simp]:
  "total_cost {#} = 0"
  "total_cost (add_mset (w, l) A) = w * l + total_cost A"
  "total_cost (A + B) = total_cost A + total_cost B"
  by (simp_all add: total_cost_def)

lemma kraft_sum_simps [simp]:
  "kraft_sum {#} = 0"
  "kraft_sum (add_mset l Ls) = (1 / 2) ^ l + kraft_sum Ls"
  "kraft_sum (Ls + Ks) = kraft_sum Ls + kraft_sum Ks"
  by (simp_all add: kraft_sum_def)

lemma kraft_sum_nonneg: "0 \<le> kraft_sum Ls"
  by (induction Ls) simp_all

lemma merge_cost_small: "size M \<le> 1 \<Longrightarrow> merge_cost M = 0"
  by (subst merge_cost.simps) simp

lemma merge_cost_step:
  assumes "\<forall>z\<in>#add_mset y M. x \<le> z" "\<forall>z\<in>#M. y \<le> z"
  shows "merge_cost (add_mset x (add_mset y M)) = x + y + merge_cost (add_mset (x + y) M)"
proof -
  let ?M = "add_mset x (add_mset y M)"
  have mx: "Min_mset ?M = x"
    using assms(1) by (intro Min_eqI) auto
  have my: "Min_mset (add_mset y M) = y"
    using assms(2) by (intro Min_eqI) auto
  have "\<not> size ?M \<le> 1" by simp
  then have "merge_cost ?M = (let x' = Min_mset ?M; M1 = ?M - {#x'#}; y' = Min_mset M1
            in x' + y' + merge_cost (add_mset (x' + y') (M1 - {#y'#})))"
    by (subst merge_cost.simps) (simp only: if_False)
  also have "\<dots> = x + y + merge_cost (add_mset (x + y) M)"
  proof -
    have d: "?M - {#x#} = add_mset y M" "add_mset y M - {#y#} = M"
      by simp_all
    show ?thesis
      unfolding Let_def mx d my ..
  qed
  finally show ?thesis .
qed

subsection \<open>Making the two deepest positions siblings\<close>

lemma kraft_scaled:
  assumes "\<forall>l\<in>#Ls. l \<le> k"
  shows "2 ^ k * kraft_sum Ls = real (\<Sum>l\<in>#Ls. 2 ^ (k - l))"
  using assms
proof (induction Ls)
  case empty
  show ?case by simp
next
  case (add l Ls)
  then have l: "l \<le> k" and rest: "2 ^ k * kraft_sum Ls = real (\<Sum>l\<in>#Ls. 2 ^ (k - l))"
    by simp_all
  from l have "(2::real) ^ k * (1 / 2) ^ l = 2 ^ (k - l)"
    by (simp add: power_diff power_one_over field_simps)
  with rest show ?case
    by (simp add: algebra_simps)
qed

lemma shorten_the_deepest:
  assumes le: "\<forall>l\<in>#Ls. l < L" and k: "kraft_sum Ls + (1 / 2) ^ L \<le> 1"
  shows "kraft_sum Ls + (1 / 2) ^ (L - 1) \<le> 1"
proof (cases L)
  case 0
  with k show ?thesis by simp
next
  case (Suc k')
  define N where "N = (\<Sum>l\<in>#Ls. (2::nat) ^ (k' - l))"
  from le Suc have "\<forall>l\<in>#Ls. l \<le> k'" by auto
  then have sc: "2 ^ k' * kraft_sum Ls = real N"
    unfolding N_def by (rule kraft_scaled)
  have "2 ^ Suc k' * (kraft_sum Ls + (1 / 2) ^ Suc k') \<le> 2 ^ Suc k' * (1::real)"
    using k Suc by (intro mult_left_mono) simp_all
  then have "2 * real N + 1 \<le> 2 * 2 ^ k'"
    using sc by (simp add: algebra_simps power_one_over)
  then have "real (2 * N + 1) \<le> real (2 * 2 ^ k')"
    by simp
  then have "2 * N + 1 \<le> 2 * 2 ^ k'"
    by (simp only: of_nat_le_iff)
  then have "N + 1 \<le> 2 ^ k'" by simp
  then have "real (N + 1) \<le> real (2 ^ k')"
    by (simp only: of_nat_le_iff)
  then have "real N + 1 \<le> 2 ^ k'"
    by simp
  then have "2 ^ k' * (kraft_sum Ls + (1 / 2) ^ k') \<le> 2 ^ k' * (1::real)"
    using sc by (simp add: algebra_simps power_one_over)
  then have "kraft_sum Ls + (1 / 2) ^ k' \<le> 1"
    by (simp only: mult_le_cancel_left_pos zero_less_power zero_less_numeral)
  with Suc show ?thesis by simp
qed

lemma all_zero_kraft:
  "\<forall>l\<in>#Ls. l = 0 \<Longrightarrow> kraft_sum Ls = real (size Ls)"
  by (induction Ls) simp_all

text \<open>
  An admissible assignment of at least two weights can be changed, without raising
  its cost, into one whose greatest length is positive and occurs twice.
\<close>

lemma two_deepest:
  assumes "admissible A" "2 \<le> size A"
  shows "\<exists>w1 w2 L R. admissible (add_mset (w1, L) (add_mset (w2, L) R)) \<and>
           image_mset fst (add_mset (w1, L) (add_mset (w2, L) R)) = image_mset fst A \<and>
           total_cost (add_mset (w1, L) (add_mset (w2, L) R)) \<le> total_cost A \<and>
           0 < L \<and> (\<forall>e\<in>#R. snd e \<le> L)"
  using assms
proof (induction "\<Sum>e\<in>#A. snd e" arbitrary: A rule: less_induct)
  case less
  from less.prems(2) have ne: "A \<noteq> {#}" by auto
  define L where "L = Max_mset (image_mset snd A)"
  have "L \<in># image_mset snd A"
    unfolding L_def using ne by (intro Max_in_mset) simp
  then obtain w1 where w1: "(w1, L) \<in># A" by auto
  then obtain A1 where A: "A = add_mset (w1, L) A1"
    by (meson multi_member_split)
  have maxL: "\<forall>e\<in>#A. snd e \<le> L"
    unfolding L_def by auto
  show ?case
  proof (cases "\<exists>w2. (w2, L) \<in># A1")
    case True
    then obtain w2 where "(w2, L) \<in># A1" ..
    then obtain R where A1: "A1 = add_mset (w2, L) R"
      by (meson multi_member_split)
    have "0 < L"
    proof (rule ccontr)
      assume "\<not> 0 < L"
      with maxL have "\<forall>l\<in>#image_mset snd A. l = 0" by auto
      then have "kraft_sum (image_mset snd A) = real (size A)"
        using all_zero_kraft [of "image_mset snd A"] by simp
      with less.prems show False
        by (simp add: admissible_def)
    qed
    with less.prems(1) maxL show ?thesis
      unfolding A A1 by (intro exI [of _ w1] exI [of _ w2] exI [of _ L] exI [of _ R]) simp
  next
    case False
    with maxL have lt: "\<forall>e\<in>#A1. snd e < L"
      unfolding A by (metis insert_iff le_neq_implies_less prod.collapse set_mset_add_mset_insert)
    from less.prems(2) A obtain e where "e \<in># A1"
      by (cases "A1 = {#}") auto
    with lt have Lpos: "0 < L" by force
    let ?B = "add_mset (w1, L - 1) A1"
    from less.prems(1) have "kraft_sum (image_mset snd A1) + (1 / 2) ^ L \<le> 1"
      by (simp add: admissible_def A add.commute)
    with lt have "kraft_sum (image_mset snd A1) + (1 / 2) ^ (L - 1) \<le> 1"
      by (intro shorten_the_deepest) auto
    then have adm: "admissible ?B"
      by (simp add: admissible_def add.commute)
    have sm: "(\<Sum>e\<in>#?B. snd e) < (\<Sum>e\<in>#A. snd e)"
      using Lpos by (simp add: A)
    have sz: "2 \<le> size ?B"
      using less.prems(2) by (simp add: A)
    from less.hyps [OF sm adm sz] obtain w1' w2' L' R' where
      B: "admissible (add_mset (w1', L') (add_mset (w2', L') R'))"
        "image_mset fst (add_mset (w1', L') (add_mset (w2', L') R')) = image_mset fst ?B"
        "total_cost (add_mset (w1', L') (add_mset (w2', L') R')) \<le> total_cost ?B"
        "0 < L'" "\<forall>e\<in>#R'. snd e \<le> L'"
      by blast
    have "total_cost ?B \<le> total_cost A"
      by (simp add: A)
    with B(3) have "total_cost (add_mset (w1', L') (add_mset (w2', L') R')) \<le> total_cost A"
      by simp
    moreover have "image_mset fst ?B = image_mset fst A"
      by (simp add: A)
    ultimately show ?thesis
      using B by metis
  qed
qed


lemma swap_cheaper:
  fixes m w l L :: nat
  assumes "m \<le> w" "l \<le> L"
  shows "m * L + w * l \<le> m * l + w * L"
proof -
  from assms obtain d e where "w = m + d" "L = l + e"
    by (metis le_Suc_ex)
  then show ?thesis
    by (simp add: algebra_simps)
qed

text \<open>
  The lightest weight can take a greatest length: the weights and the lengths stay
  the same multisets, the cost does not rise.
\<close>

lemma lightest_to_deepest:
  assumes "(w0, L) \<in># B" "\<forall>e\<in>#B. snd e \<le> L" "m = Min_mset (image_mset fst B)"
  shows "\<exists>R. image_mset fst (add_mset (m, L) R) = image_mset fst B \<and>
             image_mset snd (add_mset (m, L) R) = image_mset snd B \<and>
             total_cost (add_mset (m, L) R) \<le> total_cost B"
proof -
  from assms(1) have ne: "image_mset fst B \<noteq> {#}" by auto
  then have "m \<in># image_mset fst B"
    unfolding assms(3) by (rule Min_in_mset)
  then obtain l where ml: "(m, l) \<in># B" by auto
  show ?thesis
  proof (cases "l = L")
    case True
    with ml obtain R where "B = add_mset (m, L) R"
      by (meson multi_member_split)
    then have "image_mset fst (add_mset (m, L) R) = image_mset fst B \<and>
             image_mset snd (add_mset (m, L) R) = image_mset snd B \<and>
             total_cost (add_mset (m, L) R) \<le> total_cost B"
      by simp
    then show ?thesis ..
  next
    case False
    from ml obtain B1 where B: "B = add_mset (m, l) B1"
      by (meson multi_member_split)
    with assms(1) False have "(w0, L) \<in># B1" by auto
    then obtain B2 where B1: "B1 = add_mset (w0, L) B2"
      by (meson multi_member_split)
    have "w0 \<in> fst ` set_mset B"
      using assms(1) by force
    then have "m \<le> w0"
      unfolding assms(3) by (intro Min_le) simp_all
    moreover have "l \<le> L"
      using assms(2) ml by fastforce
    ultimately have "m * L + w0 * l \<le> m * l + w0 * L"
      by (rule swap_cheaper)
    then have "image_mset fst (add_mset (m, L) (add_mset (w0, l) B2)) = image_mset fst B \<and>
             image_mset snd (add_mset (m, L) (add_mset (w0, l) B2)) = image_mset snd B \<and>
             total_cost (add_mset (m, L) (add_mset (w0, l) B2)) \<le> total_cost B"
      by (simp add: B B1)
    then show ?thesis ..
  qed
qed

text \<open>
  The exchange step: from an admissible assignment of the weights \<open>M\<close> one gets an
  admissible assignment of \<open>M\<close> with its two lightest weights \<open>x\<close> and \<open>y\<close> replaced by
  \<open>x + y\<close>, cheaper by at least \<open>x + y\<close>.
\<close>

lemma merge_two_lightest:
  assumes adm: "admissible A" and fst: "image_mset fst A = add_mset x (add_mset y M)"
    and x: "\<forall>z\<in>#add_mset y M. x \<le> z" and y: "\<forall>z\<in>#M. y \<le> z"
  shows "\<exists>A'. admissible A' \<and> image_mset fst A' = add_mset (x + y) M \<and>
           total_cost A' + x + y \<le> total_cost A"
proof -
  have "size (image_mset fst A) = size (add_mset x (add_mset y M))"
    by (simp only: fst)
  then have "2 \<le> size A" by simp
  from two_deepest [OF adm this] obtain w1 w2 L R where
    B: "admissible (add_mset (w1, L) (add_mset (w2, L) R))"
      "image_mset fst (add_mset (w1, L) (add_mset (w2, L) R)) = image_mset fst A"
      "total_cost (add_mset (w1, L) (add_mset (w2, L) R)) \<le> total_cost A"
      "0 < L" "\<forall>e\<in>#R. snd e \<le> L"
    by blast
  let ?B = "add_mset (w1, L) (add_mset (w2, L) R)"
  have mx: "x = Min_mset (image_mset fst ?B)"
    unfolding B(2) fst using x by (intro Min_eqI [symmetric]) auto
  have "(w1, L) \<in># ?B" by simp
  moreover have "\<forall>e\<in>#?B. snd e \<le> L" using B(5) by simp
  ultimately obtain R1 where
    R1: "image_mset fst (add_mset (x, L) R1) = image_mset fst ?B"
      "image_mset snd (add_mset (x, L) R1) = image_mset snd ?B"
      "total_cost (add_mset (x, L) R1) \<le> total_cost ?B"
    using lightest_to_deepest [of w1 L ?B x, OF _ _ mx] by blast
  from R1(1) have f1: "image_mset fst R1 = add_mset y M"
    unfolding B(2) fst by simp
  from R1(2) have s1: "image_mset snd R1 = add_mset L (image_mset snd R)"
    by simp
  then have "L \<in># image_mset snd R1" by simp
  then obtain w3 where w3: "(w3, L) \<in># R1" by auto
  have le1: "\<forall>e\<in>#R1. snd e \<le> L"
  proof
    fix e assume "e \<in># R1"
    then have "snd e \<in># image_mset snd R1" by simp
    with s1 B(5) show "snd e \<le> L" by auto
  qed
  have my: "y = Min_mset (image_mset fst R1)"
    unfolding f1 using y by (intro Min_eqI [symmetric]) auto
  from lightest_to_deepest [OF w3 le1 my] obtain R2 where
    R2: "image_mset fst (add_mset (y, L) R2) = image_mset fst R1"
      "image_mset snd (add_mset (y, L) R2) = image_mset snd R1"
      "total_cost (add_mset (y, L) R2) \<le> total_cost R1"
    by blast
  from R2(1) f1 have f2: "image_mset fst R2 = M" by simp
  let ?A' = "add_mset (x + y, L - 1) R2"
  have snd_eq: "image_mset snd ?B = add_mset L (add_mset L (image_mset snd R2))"
    using R1(2) R2(2) by (metis image_mset_add_mset snd_conv)
  from B(4) have half: "(1 / 2 :: real) ^ (L - 1) = (1 / 2) ^ L + (1 / 2) ^ L"
    by (cases L) simp_all
  from B(1) have "admissible ?A'"
    unfolding admissible_def snd_eq using half by simp
  moreover have "image_mset fst ?A' = add_mset (x + y) M"
    by (simp add: f2)
  moreover have "total_cost ?A' + x + y \<le> total_cost A"
  proof -
    from B(4) have "(x + y) * (L - 1) + x + y = x * L + y * L"
      by (cases L) (simp_all add: algebra_simps)
    then have "total_cost ?A' + x + y = x * L + (y * L + total_cost R2)"
      by simp
    also have "\<dots> \<le> x * L + total_cost R1"
      using R2(3) by simp
    also have "\<dots> \<le> total_cost ?B"
      using R1(3) by simp
    also note B(3)
    finally show ?thesis .
  qed
  ultimately show ?thesis by blast
qed

text \<open>No admissible assignment of the weights is cheaper than merging the two lightest.\<close>

theorem merge_cost_least:
  "admissible A \<Longrightarrow> merge_cost (image_mset fst A) \<le> total_cost A"
proof (induction "size A" arbitrary: A rule: less_induct)
  case less
  show ?case
  proof (cases "size A \<le> 1")
    case True
    then show ?thesis by (simp add: merge_cost_small)
  next
    case False
    let ?W = "image_mset fst A"
    from False have ne: "?W \<noteq> {#}" by auto
    define x where "x = Min_mset ?W"
    have "x \<in># ?W" unfolding x_def using ne by (rule Min_in_mset)
    then obtain W1 where W1: "?W = add_mset x W1"
      by (meson multi_member_split)
    from False have "size ?W \<ge> 2" by simp
    with W1 have ne1: "W1 \<noteq> {#}" by auto
    define y where "y = Min_mset W1"
    have "y \<in># W1" unfolding y_def using ne1 by (rule Min_in_mset)
    then obtain M where M: "W1 = add_mset y M"
      by (meson multi_member_split)
    from W1 M have W: "?W = add_mset x (add_mset y M)" by simp
    have xle: "\<And>z. z \<in># ?W \<Longrightarrow> x \<le> z"
      unfolding x_def by simp
    have yle: "\<And>z. z \<in># W1 \<Longrightarrow> y \<le> z"
      unfolding y_def by simp
    have xmin: "\<forall>z\<in>#add_mset y M. x \<le> z"
    proof
      fix z assume "z \<in># add_mset y M"
      then have "z \<in># ?W" by (simp add: W)
      then show "x \<le> z" by (rule xle)
    qed
    have ymin: "\<forall>z\<in>#M. y \<le> z"
    proof
      fix z assume "z \<in># M"
      then have "z \<in># W1" by (simp add: M)
      then show "y \<le> z" by (rule yle)
    qed
    from merge_two_lightest [OF less.prems W xmin ymin] obtain A' where
      A': "admissible A'" "image_mset fst A' = add_mset (x + y) M"
        "total_cost A' + x + y \<le> total_cost A"
      by blast
    have "size (image_mset fst A') = size (add_mset (x + y) M)"
      by (simp only: A'(2))
    moreover have "size ?W = size (add_mset x (add_mset y M))"
      by (simp only: W)
    ultimately have "size A' < size A" by simp
    from less.hyps [OF this A'(1)] have "merge_cost (add_mset (x + y) M) \<le> total_cost A'"
      by (simp only: A'(2))
    with A'(3) merge_cost_step [OF xmin ymin] show ?thesis
      unfolding W by simp
  qed
qed

section \<open>The lengths of a prefix-free code are admissible\<close>

lemma kraft_base: "C \<subseteq> {[]} \<Longrightarrow> (\<Sum>c\<in>C. (1 / 2 :: real) ^ length c) \<le> 1"
proof -
  assume "C \<subseteq> {[]}"
  then have "C = {} \<or> C = {[]}" by auto
  then show ?thesis by (elim disjE) simp_all
qed

lemma finite_tails:
  fixes C :: "bool list set"
  assumes "finite C"
  shows "finite (Cons b -` C)"
  using assms by (intro finite_vimageI) (simp_all add: inj_on_def)

lemma prefix_free_tails:
  fixes C :: "bool list set"
  assumes "\<forall>a\<in>C. \<forall>b\<in>C. prefix a b \<longrightarrow> a = b"
  shows "\<forall>p\<in>Cons b -` C. \<forall>q\<in>Cons b -` C. prefix p q \<longrightarrow> p = q"
  using assms by fastforce

lemma length_tails:
  fixes C :: "bool list set"
  assumes "\<forall>c\<in>C. length c \<le> Suc n"
  shows "\<forall>p\<in>Cons b -` C. length p \<le> n"
  using assms by fastforce

lemma kraft_half:
  "(\<Sum>c\<in>Cons b ` D. (1 / 2 :: real) ^ length c) = (1 / 2) * (\<Sum>p\<in>D. (1 / 2) ^ length p)"
  by (simp add: sum.reindex inj_on_def sum_distrib_left)

lemma split_by_first_bit:
  fixes C :: "bool list set"
  assumes "[] \<notin> C"
  shows "C = Cons False ` (Cons False -` C) \<union> Cons True ` (Cons True -` C)"
proof
  show "C \<subseteq> Cons False ` (Cons False -` C) \<union> Cons True ` (Cons True -` C)"
  proof
    fix c assume c: "c \<in> C"
    with assms obtain b p where "c = b # p" by (cases c) auto
    with c show "c \<in> Cons False ` (Cons False -` C) \<union> Cons True ` (Cons True -` C)"
      by (cases b) auto
  qed
  show "Cons False ` (Cons False -` C) \<union> Cons True ` (Cons True -` C) \<subseteq> C"
    by auto
qed

lemma kraft_two_halves:
  fixes D0 D1 :: "bool list set"
  assumes "finite D0" "finite D1"
  shows "(\<Sum>c\<in>Cons False ` D0 \<union> Cons True ` D1. (1 / 2 :: real) ^ length c) =
        (1 / 2) * (\<Sum>p\<in>D0. (1 / 2) ^ length p) + (1 / 2) * (\<Sum>p\<in>D1. (1 / 2) ^ length p)"
proof -
  have "(\<Sum>c\<in>Cons False ` D0 \<union> Cons True ` D1. (1 / 2 :: real) ^ length c) =
        (\<Sum>c\<in>Cons False ` D0. (1 / 2) ^ length c) + (\<Sum>c\<in>Cons True ` D1. (1 / 2) ^ length c)"
    using assms by (intro sum.union_disjoint) auto
  then show ?thesis
    by (simp only: kraft_half)
qed

lemma kraft_bounded:
  fixes C :: "bool list set"
  shows "finite C \<Longrightarrow> (\<forall>a\<in>C. \<forall>b\<in>C. prefix a b \<longrightarrow> a = b) \<Longrightarrow> (\<forall>c\<in>C. length c \<le> n) \<Longrightarrow>
   (\<Sum>c\<in>C. (1 / 2 :: real) ^ length c) \<le> 1"
proof (induction n arbitrary: C)
  case 0
  then have "C \<subseteq> {[]}" by auto
  then show ?case by (rule kraft_base)
next
  case (Suc n)
  show ?case
  proof (cases "[] \<in> C")
    case True
    have "C \<subseteq> {[]}"
    proof
      fix c assume "c \<in> C"
      with True Suc.prems(2) have "prefix [] c \<longrightarrow> [] = c" by blast
      then show "c \<in> {[]}" by simp
    qed
    then show ?thesis by (rule kraft_base)
  next
    case False
    have part: "(\<Sum>p\<in>Cons b -` C. (1 / 2 :: real) ^ length p) \<le> 1" for b
      using finite_tails [OF Suc.prems(1), of b] prefix_free_tails [OF Suc.prems(2), of b]
        length_tails [OF Suc.prems(3), of b]
      by (rule Suc.IH)
    have both: "(\<Sum>c\<in>Cons False ` (Cons False -` C) \<union> Cons True ` (Cons True -` C). (1 / 2 :: real) ^ length c) \<le> 1"
      unfolding kraft_two_halves [OF finite_tails [OF Suc.prems(1)] finite_tails [OF Suc.prems(1)]]
      using part [of False] part [of True] by simp
    show ?thesis
      by (subst split_by_first_bit [OF False]) (rule both)
  qed
qed

text \<open>A code is an assignment of bit strings to the symbols of a finite set.\<close>

definition prefix_free_on :: "'a set \<Rightarrow> ('a \<Rightarrow> bool list) \<Rightarrow> bool" where
  "prefix_free_on S cw = (\<forall>a\<in>S. \<forall>b\<in>S. a \<noteq> b \<longrightarrow> \<not> prefix (cw a) (cw b))"

lemma kraft_code:
  assumes "finite S" "prefix_free_on S cw"
  shows "(\<Sum>s\<in>S. (1 / 2 :: real) ^ length (cw s)) \<le> 1"
proof -
  have inj: "inj_on cw S"
    using assms(2) unfolding prefix_free_on_def inj_on_def by (metis prefix_order.order_refl)
  have "finite (cw ` S)" using assms(1) by simp
  moreover have "\<forall>a\<in>cw ` S. \<forall>b\<in>cw ` S. prefix a b \<longrightarrow> a = b"
  proof (intro ballI impI)
    fix a b
    assume "a \<in> cw ` S" "b \<in> cw ` S" and p: "prefix a b"
    then obtain s t where st: "s \<in> S" "t \<in> S" "a = cw s" "b = cw t"
      by auto
    with assms(2) p have "s = t"
      unfolding prefix_free_on_def by auto
    with st show "a = b" by simp
  qed
  moreover have "\<forall>c\<in>cw ` S. length c \<le> Max (length ` cw ` S)"
    using assms(1) by simp
  ultimately have "(\<Sum>c\<in>cw ` S. (1 / 2 :: real) ^ length c) \<le> 1"
    by (rule kraft_bounded)
  then show ?thesis
    by (simp add: sum.reindex [OF inj])
qed

definition assignment_of :: "'a set \<Rightarrow> ('a \<Rightarrow> nat) \<Rightarrow> ('a \<Rightarrow> nat) \<Rightarrow> assignment" where
  "assignment_of S w l = image_mset (\<lambda>s. (w s, l s)) (mset_set S)"

lemma total_cost_assignment:
  "total_cost (assignment_of S w l) = (\<Sum>s\<in>S. w s * l s)"
  by (simp add: total_cost_def assignment_of_def image_mset.compositionality comp_def
      sum_unfold_sum_mset)

lemma admissible_code:
  assumes "finite S" "prefix_free_on S cw"
  shows "admissible (assignment_of S w (\<lambda>s. length (cw s)))"
proof -
  have "kraft_sum (image_mset snd (assignment_of S w (\<lambda>s. length (cw s)))) =
      (\<Sum>s\<in>S. (1 / 2 :: real) ^ length (cw s))"
    by (simp add: kraft_sum_def assignment_of_def image_mset.compositionality comp_def
        sum_unfold_sum_mset)
  with kraft_code [OF assms] show ?thesis
    by (simp add: admissible_def)
qed

text \<open>
  No prefix-free code for the symbols of \<open>S\<close> costs less than merging the two lightest
  weights again and again.
\<close>

theorem merge_cost_le_code:
  assumes "finite S" "prefix_free_on S cw"
  shows "merge_cost (image_mset w (mset_set S)) \<le> (\<Sum>s\<in>S. w s * length (cw s))"
proof -
  have "image_mset fst (assignment_of S w (\<lambda>s. length (cw s))) = image_mset w (mset_set S)"
    by (simp add: assignment_of_def image_mset.compositionality comp_def)
  with merge_cost_least [OF admissible_code [OF assms, of w]] show ?thesis
    by (simp add: total_cost_assignment)
qed

section \<open>Weights and costs of trees\<close>

text \<open>The symbols of nonzero frequency, in ascending order.\<close>

definition alphabet :: "freq_table \<Rightarrow> nat list" where
  "alphabet fr = filter (\<lambda>c. fr c \<noteq> 0) [0..<NUM_CHARS]"

definition total_weight :: "freq_table \<Rightarrow> nat" where
  "total_weight fr = (\<Sum>c\<leftarrow>alphabet fr. unat (fr c))"

definition weighted_length :: "freq_table \<Rightarrow> (nat \<Rightarrow> nat) \<Rightarrow> nat" where
  "weighted_length fr l = (\<Sum>c\<leftarrow>alphabet fr. unat (fr c) * l c)"

lemma used_alphabet: "used fr [0..<NUM_CHARS] = alphabet fr"
  by (simp add: used_def alphabet_def)

lemma distinct_alphabet [simp]: "distinct (alphabet fr)"
  by (simp add: alphabet_def)

lemma set_alphabet: "set (alphabet fr) = {c. c < NUM_CHARS \<and> fr c \<noteq> 0}"
  by (auto simp: alphabet_def)

text \<open>The weight of a tree (the sum of its leaves' frequencies, unbounded) and its cost.\<close>

fun wt :: "node \<Rightarrow> nat" where
  "wt (Leaf s w) = unat w"
| "wt (Inner w l r) = wt l + wt r"

fun tcost :: "node \<Rightarrow> nat" where
  "tcost (Leaf s w) = 0"
| "tcost (Inner w l r) = tcost l + tcost r + wt l + wt r"

text \<open>
  A tree is sound when no frequency in it has wrapped around, no leaf has frequency
  zero, and a left child is never heavier than its sibling.
\<close>

fun sound :: "node \<Rightarrow> bool" where
  "sound (Leaf s w) = (w \<noteq> 0)"
| "sound (Inner w l r) = (unat w = wt l + wt r \<and> wt l \<le> wt r \<and> sound l \<and> sound r)"

text \<open>The leaves agree with the frequency table.\<close>

fun agrees :: "freq_table \<Rightarrow> node \<Rightarrow> bool" where
  "agrees fr (Leaf s w) = (w = fr s)"
| "agrees fr (Inner w l r) = (agrees fr l \<and> agrees fr r)"

fun syms :: "node \<Rightarrow> nat multiset" where
  "syms (Leaf s w) = {#s#}"
| "syms (Inner w l r) = syms l + syms r"

lemma sound_freq: "sound t \<Longrightarrow> unat (freq t) = wt t"
  by (cases t) simp_all

lemma sound_pos: "sound t \<Longrightarrow> 0 < wt t"
  by (induction t) (simp_all add: unat_gt_0)

lemma need_weight: "sound t \<Longrightarrow> 2 ^ (need t - 1) \<le> wt t"
proof (induction t)
  case (Leaf s w)
  then show ?case by (simp add: unat_gt_0 Suc_leI)
next
  case (Inner w l r)
  then have l: "2 ^ (need l - 1) \<le> wt l" and r: "2 ^ (need r - 1) \<le> wt r"
    and lr: "wt l \<le> wt r"
    by simp_all
  have "(2::nat) ^ need l = 2 * 2 ^ (need l - 1)"
    using need_pos [of l] by (cases "need l") simp_all
  with l lr have "2 ^ need l \<le> wt l + wt r" by simp
  moreover from r have "2 ^ (need r - 1) \<le> wt l + wt r" by simp
  ultimately show ?case
    by (simp add: max_def)
qed

lemma need_small:
  assumes "sound t" "wt t < 2 ^ 64"
  shows "need t \<le> MAX_CODE_LEN * 2"
proof -
  from need_weight [OF assms(1)] assms(2) have "(2::nat) ^ (need t - 1) < 2 ^ 64"
    by simp
  then have "need t - 1 < 64"
    by (simp only: power_strict_increasing_iff rel_simps)
  then show ?thesis
    by (simp add: MAX_CODE_LEN_def)
qed

lemma syms_paths: "mset (map fst (leaf_paths t)) = syms t"
  by (induction t) (simp_all add: comp_def case_prod_unfold)

lemma wt_paths: "agrees fr t \<Longrightarrow> wt t = (\<Sum>(s, p)\<leftarrow>leaf_paths t. unat (fr s))"
  by (induction t) (simp_all add: comp_def case_prod_unfold)

lemma tcost_paths:
  "agrees fr t \<Longrightarrow> tcost t = (\<Sum>(s, p)\<leftarrow>leaf_paths t. unat (fr s) * length p)"
proof (induction t)
  case (Leaf s w)
  show ?case by simp
next
  case (Inner w l r)
  then have a: "agrees fr l" "agrees fr r" by simp_all
  have "(\<Sum>(s, p)\<leftarrow>map (\<lambda>(s, p). (s, b # p)) xs. unat (fr s) * length p) =
      (\<Sum>(s, p)\<leftarrow>xs. unat (fr s) * length p) + (\<Sum>(s, p)\<leftarrow>xs. unat (fr s))"
    for b :: bool and xs :: "(nat \<times> bool list) list"
    by (induction xs) (simp_all add: case_prod_unfold)
  with Inner.IH(1) [OF a(1)] Inner.IH(2) [OF a(2)] wt_paths [OF a(1)] wt_paths [OF a(2)]
  show ?case by simp
qed

section \<open>What the merging loop keeps\<close>

definition leaves_agree :: "freq_table \<Rightarrow> node multiset \<Rightarrow> bool" where
  "leaves_agree fr F = ((\<forall>t\<in>#F. agrees fr t) \<and> (\<Sum>t\<in>#F. syms t) = mset (alphabet fr))"

definition weights_exact :: "freq_table \<Rightarrow> node multiset \<Rightarrow> bool" where
  "weights_exact fr F =
     ((\<forall>t\<in>#F. sound t) \<and> (\<Sum>t\<in>#F. wt t) = total_weight fr \<and>
      (\<Sum>t\<in>#F. tcost t) + merge_cost (image_mset wt F) =
        merge_cost (image_mset (\<lambda>c. unat (fr c)) (mset (alphabet fr))))"

lemma leaves_of_alphabet: "leaves_of fr = mset (map (leaf_of fr) (alphabet fr))"
  by (simp add: leaves_of_def used_alphabet)

lemma leaves_agree_start: "leaves_agree fr (leaves_of fr)"
proof -
  have "(\<Sum>t\<in>#mset (map (leaf_of fr) cs). syms t) = mset cs" for cs
    by (induction cs) (simp_all add: leaf_of_def)
  then show ?thesis
    by (simp add: leaves_agree_def leaves_of_alphabet leaf_of_def)
qed

lemma leaves_agree_step:
  "leaves_agree fr (add_mset a (add_mset b F)) \<Longrightarrow> leaves_agree fr (add_mset (Inner w a b) F)"
  by (simp add: leaves_agree_def ac_simps)

lemma weights_exact_start: "weights_exact fr (leaves_of fr)"
proof -
  have s: "\<forall>t\<in>#leaves_of fr. sound t"
    by (auto simp: leaves_of_alphabet leaf_of_def alphabet_def)
  have w: "(\<Sum>t\<in>#mset (map (leaf_of fr) cs). wt t) = (\<Sum>c\<leftarrow>cs. unat (fr c))" for cs
    by (induction cs) (simp_all add: leaf_of_def)
  have c: "(\<Sum>t\<in>#mset (map (leaf_of fr) cs). tcost t) = 0" for cs
    by (induction cs) (simp_all add: leaf_of_def)
  have i: "image_mset wt (mset (map (leaf_of fr) cs)) = image_mset (\<lambda>c. unat (fr c)) (mset cs)" for cs
    by (induction cs) (simp_all add: leaf_of_def)
  have m: "(\<Sum>c\<in>#mset cs. unat (fr c)) = (\<Sum>c\<leftarrow>cs. unat (fr c))" for cs
    by (induction cs) simp_all
  from s show ?thesis
    unfolding weights_exact_def leaves_of_alphabet
    by (simp add: w c i m total_weight_def del: mset_map)
qed

lemma weights_exact_step:
  assumes inv: "weights_exact fr (add_mset a (add_mset b F))"
    and nowrap: "total_weight fr < 2 ^ 64"
    and ab: "freq a \<le> freq b" and bF: "\<forall>x\<in>#F. freq b \<le> freq x"
  shows "weights_exact fr (add_mset (Inner (freq a + freq b) a b) F)"
proof -
  from inv have sa: "sound a" and sb: "sound b" and sF: "\<forall>t\<in>#F. sound t"
    and tot: "wt a + wt b + (\<Sum>t\<in>#F. wt t) = total_weight fr"
    and cost: "tcost a + tcost b + (\<Sum>t\<in>#F. tcost t) +
        merge_cost (add_mset (wt a) (add_mset (wt b) (image_mset wt F))) =
        merge_cost (image_mset (\<lambda>c. unat (fr c)) (mset (alphabet fr)))"
    by (simp_all add: weights_exact_def ac_simps)
  note fa = sound_freq [OF sa] and fb = sound_freq [OF sb]
  from tot nowrap have "unat (freq a) + unat (freq b) < 2 ^ LENGTH(64)"
    by (simp add: fa fb)
  then have sum: "unat (freq a + freq b) = wt a + wt b"
    by (simp add: unat_add_lem [THEN iffD1] fa fb)
  from ab have le: "wt a \<le> wt b"
    by (simp add: word_le_nat_alt fa fb)
  have bmin: "\<forall>z\<in>#image_mset wt F. wt b \<le> z"
  proof
    fix z assume "z \<in># image_mset wt F"
    then obtain x where x: "x \<in># F" "z = wt x" by auto
    with bF sF have "freq b \<le> freq x" "unat (freq x) = wt x"
      by (simp_all add: sound_freq)
    with x fb show "wt b \<le> z"
      by (simp add: word_le_nat_alt)
  qed
  with le have amin: "\<forall>z\<in>#add_mset (wt b) (image_mset wt F). wt a \<le> z"
    by auto
  from merge_cost_step [OF amin bmin] cost
  have "tcost a + tcost b + wt a + wt b + (\<Sum>t\<in>#F. tcost t) +
        merge_cost (add_mset (wt a + wt b) (image_mset wt F)) =
        merge_cost (image_mset (\<lambda>c. unat (fr c)) (mset (alphabet fr)))"
    by simp
  with sa sb sF sum le tot show ?thesis
    by (simp add: weights_exact_def ac_simps)
qed

text \<open>What is known of the tree that \<^verbatim>\<open>build_char_codes\<close> builds for a nonempty alphabet.\<close>

lemma root_facts:
  assumes "alphabet fr \<noteq> []"
  shows "\<exists>t. huffman_root fr (replicate NUM_CHARS zero_entry) = Inr (Some t) \<and>
           build_char_codes fr (replicate NUM_CHARS zero_entry) = dfs [(t, 0, 0)] (replicate NUM_CHARS zero_entry) \<and>
           agrees fr t \<and> syms t = mset (alphabet fr) \<and>
           (total_weight fr < 2 ^ 64 \<longrightarrow>
              sound t \<and> wt t = total_weight fr \<and>
              tcost t = merge_cost (image_mset (\<lambda>c. unat (fr c)) (mset (alphabet fr))))"
proof -
  let ?P = "\<lambda>F. leaves_agree fr F \<and> (total_weight fr < 2 ^ 64 \<longrightarrow> weights_exact fr F)"
  have step: "?P (add_mset (Inner (freq a + freq b) a b) F)"
    if "?P (add_mset a (add_mset b F))" "freq a \<le> freq b" "\<forall>x\<in>#F. freq b \<le> freq x" for F a b
    using that leaves_agree_step weights_exact_step by blast
  have start: "?P (leaves_of fr)"
    using leaves_agree_start weights_exact_start by blast
  from assms have ne: "leaves_of fr \<noteq> {#}"
    by (simp add: leaves_of_alphabet)
  from build_rule [of ?P fr, OF step start ne] obtain t where
    t: "huffman_root fr (replicate NUM_CHARS zero_entry) = Inr (Some t)"
      "build_char_codes fr (replicate NUM_CHARS zero_entry) = dfs [(t, 0, 0)] (replicate NUM_CHARS zero_entry)"
      "leaves_agree fr {#t#}" "total_weight fr < 2 ^ 64 \<longrightarrow> weights_exact fr {#t#}"
    by blast
  have "merge_cost {#wt t#} = 0"
    by (rule merge_cost_small) simp
  with t show ?thesis
    by (auto simp: leaves_agree_def weights_exact_def)
qed

section \<open>Paths and code values\<close>

text \<open>The value of a path read as a binary numeral, unbounded.\<close>

definition path_value :: "bool list \<Rightarrow> nat" where
  "path_value p = fold (\<lambda>b n. 2 * n + of_bool b) p 0"

text \<open>
  The bits of an entry, most significant first, as \<^verbatim>\<open>print_char_code\<close> reads them:
  \<^verbatim>\<open>(code >> i) & 1\<close> for \<open>i\<close> from \<open>len - 1\<close> down to 0.
\<close>

definition code_bits :: "CodeEntry \<Rightarrow> bool list" where
  "code_bits e = map (bit (code e)) (rev [0..<nat (len e)])"

lemma walk_of_nat:
  "c = of_nat n \<Longrightarrow> walk c p = of_nat (fold (\<lambda>b n. 2 * n + of_bool b) p n)"
proof (induction p arbitrary: c n)
  case Nil
  then show ?case by simp
next
  case (Cons b p)
  have "walk c (b # p) = walk (c * 2 + of_bool b) p"
    by (cases b) (simp_all add: or_one_eq)
  also have "\<dots> = of_nat (fold (\<lambda>b n. 2 * n + of_bool b) p (2 * n + of_bool b))"
    by (rule Cons.IH) (simp add: Cons.prems)
  finally show ?case by simp
qed

lemma walk_path_value: "unat (walk 0 p) = path_value p mod 2 ^ 64"
  using walk_of_nat [of 0 0 p] by (simp add: path_value_def unat_of_nat)

lemma fold_bits_bound:
  fixes n :: nat
  shows "fold (\<lambda>b n. 2 * n + of_bool b) p n < 2 ^ length p * (n + 1)"
proof (induction p arbitrary: n)
  case Nil
  show ?case by simp
next
  case (Cons b p)
  have "fold (\<lambda>b n. 2 * n + of_bool b) p (2 * n + of_bool b) < 2 ^ length p * (2 * n + of_bool b + 1)"
    by (rule Cons.IH)
  also have "\<dots> \<le> 2 ^ length p * (2 * (n + 1))"
    by (intro mult_le_mono2) simp
  finally show ?case by simp
qed

lemma path_value_bound: "path_value p < 2 ^ length p"
  using fold_bits_bound [of p 0] by (simp add: path_value_def)

lemma walk_bound: "unat (walk 0 p) < 2 ^ length p"
proof -
  have "path_value p mod 2 ^ 64 \<le> path_value p" by simp
  with path_value_bound [of p] show ?thesis
    by (simp add: walk_path_value)
qed

lemma walk_bit:
  "bit (walk c p) i \<longleftrightarrow> i < 64 \<and> (if i < length p then rev p ! i else bit c (i - length p))"
proof (induction p arbitrary: c)
  case Nil
  show ?case using bit_imp_le_length [of c i] by auto
next
  case (Cons b p)
  let ?c = "if b then push_bit 1 c OR 1 else push_bit 1 c"
  have w: "walk c (b # p) = walk ?c p" by simp
  have b0: "bit ?c 0 \<longleftrightarrow> b"
    by (cases b) (simp_all add: bit_0 even_or_iff)
  have "bit (2 * c) (Suc k) \<longleftrightarrow> Suc k < 64 \<and> bit c k" for k
    by (simp add: bit_double_Suc_iff)
  then have bk: "bit ?c (Suc k) \<longleftrightarrow> Suc k < 64 \<and> bit c k" for k
    by (cases b) (simp_all add: bit_or_iff bit_1_iff mult.commute [of c 2])
  show ?case
  proof (cases "i < length p")
    case True
    then show ?thesis
      unfolding w Cons.IH by (simp add: nth_append)
  next
    case False
    show ?thesis
    proof (cases "i = length p")
      case True
      then show ?thesis
        unfolding w Cons.IH using b0 by (simp add: nth_append)
    next
      case ne: False
      with False obtain k where k: "i - length p = Suc k" "i - length (b # p) = k"
        by (cases "i - length p") auto
      with False ne show ?thesis
        unfolding w Cons.IH using bk [of k] bit_imp_le_length [of c k] by auto
    qed
  qed
qed

lemma walk_high_bits: "length p \<le> i \<Longrightarrow> \<not> bit (walk 0 p) i"
  by (simp add: walk_bit)

lemma code_bits_entry:
  assumes "length p \<le> 64"
  shows "code_bits (entry_at 0 0 p) = p"
proof (rule nth_equalityI)
  show "length (code_bits (entry_at 0 0 p)) = length p"
    by (simp add: code_bits_def entry_at_def)
next
  fix k assume "k < length (code_bits (entry_at 0 0 p))"
  then have k: "k < length p"
    by (simp add: code_bits_def entry_at_def)
  then have "rev [0..<length p] ! k = length p - Suc k" "length p - Suc k < length p"
    by (simp_all add: rev_nth)
  with k assms show "code_bits (entry_at 0 0 p) ! k = p ! k"
    by (simp add: code_bits_def entry_at_def walk_bit rev_nth)
qed

section \<open>The table that is built\<close>

definition tree_depth :: "freq_table \<Rightarrow> code_table \<Rightarrow> nat" where
  "tree_depth fr cc0 = (case huffman_root fr cc0 of Inr (Some t) \<Rightarrow> height_node t | _ \<Rightarrow> 0)"

definition prefix_free_table :: "code_table \<Rightarrow> bool" where
  "prefix_free_table cc =
     (\<forall>a<NUM_CHARS. \<forall>b<NUM_CHARS. a \<noteq> b \<longrightarrow> 0 < len (cc ! a) \<longrightarrow> 0 < len (cc ! b) \<longrightarrow>
        \<not> prefix (code_bits (cc ! a)) (code_bits (cc ! b)))"

lemma no_symbols:
  assumes "alphabet fr = []"
  shows "huffman_root fr (replicate NUM_CHARS zero_entry) = Inr None" "build_char_codes fr (replicate NUM_CHARS zero_entry) = Inr (replicate NUM_CHARS zero_entry)"
proof -
  from assms have "used fr [0..<NUM_CHARS] = []"
    by (simp add: used_alphabet)
  with init_loop_eq [of fr] obtain h where "init_loop fr (replicate NUM_CHARS zero_entry) = (replicate NUM_CHARS zero_entry, h, 0)"
    by auto
  then show "huffman_root fr (replicate NUM_CHARS zero_entry) = Inr None" "build_char_codes fr (replicate NUM_CHARS zero_entry) = Inr (replicate NUM_CHARS zero_entry)"
    by (simp_all add: huffman_root_def build_char_codes_def)
qed

lemma alphabet_bound: "s \<in> set (alphabet fr) \<Longrightarrow> s < NUM_CHARS"
  by (simp add: set_alphabet)

text \<open>The tree that was built, its leaves, and the table written from it.\<close>

lemma root_leaves:
  assumes "huffman_root fr (replicate NUM_CHARS zero_entry) = Inr (Some t)"
  shows "distinct (map fst (leaf_paths t))" "fst ` set (leaf_paths t) = set (alphabet fr)"
    "agrees fr t" "build_char_codes fr (replicate NUM_CHARS zero_entry) = dfs [(t, 0, 0)] (replicate NUM_CHARS zero_entry)"
    "mset (map fst (leaf_paths t)) = mset (alphabet fr)"
    "total_weight fr < 2 ^ 64 \<Longrightarrow> sound t"
    "total_weight fr < 2 ^ 64 \<Longrightarrow> wt t = total_weight fr"
    "total_weight fr < 2 ^ 64 \<Longrightarrow>
       tcost t = merge_cost (image_mset (\<lambda>c. unat (fr c)) (mset (alphabet fr)))"
proof -
  from assms no_symbols(1) [of fr] have "alphabet fr \<noteq> []" by auto
  from root_facts [OF this] assms have
    f: "build_char_codes fr (replicate NUM_CHARS zero_entry) = dfs [(t, 0, 0)] (replicate NUM_CHARS zero_entry)"
      "agrees fr t" "syms t = mset (alphabet fr)"
      "total_weight fr < 2 ^ 64 \<longrightarrow> sound t \<and> wt t = total_weight fr \<and>
         tcost t = merge_cost (image_mset (\<lambda>c. unat (fr c)) (mset (alphabet fr)))"
    by auto
  from f(3) show m: "mset (map fst (leaf_paths t)) = mset (alphabet fr)"
    using syms_paths [of t] by simp
  from m show "distinct (map fst (leaf_paths t))"
    using mset_eq_imp_distinct_iff [OF m] by simp
  from m show "fst ` set (leaf_paths t) = set (alphabet fr)"
    using mset_eq_setD [OF m] by simp
  show "agrees fr t" "build_char_codes fr (replicate NUM_CHARS zero_entry) = dfs [(t, 0, 0)] (replicate NUM_CHARS zero_entry)"
    by (fact f)+
  show "total_weight fr < 2 ^ 64 \<Longrightarrow> sound t"
    "total_weight fr < 2 ^ 64 \<Longrightarrow> wt t = total_weight fr"
    "total_weight fr < 2 ^ 64 \<Longrightarrow>
       tcost t = merge_cost (image_mset (\<lambda>c. unat (fr c)) (mset (alphabet fr)))"
    using f(4) by simp_all
qed

definition table_of :: "node \<Rightarrow> code_table" where
  "table_of t = write_paths 0 0 (leaf_paths t) (replicate NUM_CHARS zero_entry)"

lemma built_table:
  assumes "huffman_root fr (replicate NUM_CHARS zero_entry) = Inr (Some t)" "need t \<le> MAX_CODE_LEN * 2"
  shows "build_char_codes fr (replicate NUM_CHARS zero_entry) = Inr (table_of t)"
    and "\<And>s p. (s, p) \<in> set (leaf_paths t) \<Longrightarrow> table_of t ! s = entry_at 0 0 p"
    and "\<And>c. c \<notin> set (alphabet fr) \<Longrightarrow> c < NUM_CHARS \<Longrightarrow> table_of t ! c = zero_entry"
proof -
  note r = root_leaves [OF assms(1)]
  show "build_char_codes fr (replicate NUM_CHARS zero_entry) = Inr (table_of t)"
    by (simp add: r(4) dfs_root [OF assms(2)] assign_paths table_of_def)
  show "table_of t ! s = entry_at 0 0 p" if "(s, p) \<in> set (leaf_paths t)" for s p
  proof -
    from that r(2) have "s \<in> set (alphabet fr)" by force
    then have "s < length (replicate NUM_CHARS zero_entry)"
      by (simp add: alphabet_bound)
    with r(1) that show ?thesis
      unfolding table_of_def by (rule write_paths_hit)
  qed
  show "table_of t ! c = zero_entry" if "c \<notin> set (alphabet fr)" "c < NUM_CHARS" for c
  proof -
    from that(1) r(2) have "c \<notin> fst ` set (leaf_paths t)" by simp
    then have "table_of t ! c = replicate NUM_CHARS zero_entry ! c"
      unfolding table_of_def by (rule write_paths_other)
    with that(2) show ?thesis by simp
  qed
qed

text \<open>In a tree, the path to one leaf is never a prefix of the path to another.\<close>

lemma leaf_paths_prefix:
  "(s, p) \<in> set (leaf_paths t) \<Longrightarrow> (s', p') \<in> set (leaf_paths t) \<Longrightarrow> prefix p p' \<Longrightarrow>
   distinct (map fst (leaf_paths t)) \<Longrightarrow> s = s'"
proof (induction t arbitrary: p p')
  case (Leaf x w)
  then show ?case by simp
next
  case (Inner w l r)
  from Inner.prems(4) have dl: "distinct (map fst (leaf_paths l))"
    and dr: "distinct (map fst (leaf_paths r))"
    by (simp_all add: comp_def case_prod_unfold)
  from Inner.prems(1) consider q where "p = False # q" "(s, q) \<in> set (leaf_paths l)"
    | q where "p = True # q" "(s, q) \<in> set (leaf_paths r)"
    by auto
  then show ?case
  proof cases
    case 1
    with Inner.prems(3) obtain q' where q': "p' = False # q'" "prefix q q'"
      by (cases p') auto
    with Inner.prems(2) have "(s', q') \<in> set (leaf_paths l)" by auto
    with 1 q' dl show ?thesis by (intro Inner.IH(1) [of q q'])
  next
    case 2
    with Inner.prems(3) obtain q' where q': "p' = True # q'" "prefix q q'"
      by (cases p') auto
    with Inner.prems(2) have "(s', q') \<in> set (leaf_paths r)" by auto
    with 2 q' dr show ?thesis by (intro Inner.IH(2) [of q q'])
  qed
qed

lemma leaf_paths_height:
  "(s, p) \<in> set (leaf_paths t) \<Longrightarrow> length p \<le> height_node t"
  by (induction t arbitrary: p) (auto simp: le_max_iff_disj)

section \<open>Properties of the table\<close>

lemma depth_need:
  assumes "huffman_root fr (replicate NUM_CHARS zero_entry) = Inr (Some t)" "tree_depth fr (replicate NUM_CHARS zero_entry) \<le> MAX_CODE_LEN"
  shows "height_node t \<le> 64" "need t \<le> MAX_CODE_LEN * 2"
proof -
  from assms show h: "height_node t \<le> 64"
    by (simp add: tree_depth_def MAX_CODE_LEN_def)
  with need_le_height [of t] show "need t \<le> MAX_CODE_LEN * 2"
    by (simp add: MAX_CODE_LEN_def)
qed

lemma root_cases:
  obtains "alphabet fr = []" "huffman_root fr (replicate NUM_CHARS zero_entry) = Inr None"
    "build_char_codes fr (replicate NUM_CHARS zero_entry) = Inr (replicate NUM_CHARS zero_entry)"
  | t where "alphabet fr \<noteq> []" "huffman_root fr (replicate NUM_CHARS zero_entry) = Inr (Some t)"
proof (cases "alphabet fr = []")
  case True
  with no_symbols [OF True] that(1) show ?thesis by blast
next
  case False
  from root_facts [OF False] that(2) False show ?thesis by blast
qed

lemma len_zero_entry [simp]: "len zero_entry = 0" "code zero_entry = 0"
  by (simp_all add: zero_entry_def)

lemma prefix_free_built:
  assumes "tree_depth fr (replicate NUM_CHARS zero_entry) \<le> MAX_CODE_LEN"
  shows "\<exists>cc. build_char_codes fr (replicate NUM_CHARS zero_entry) = Inr cc \<and> prefix_free_table cc"
proof (cases fr rule: root_cases)
  case 1
  then show ?thesis
    by (simp add: prefix_free_table_def)
next
  case (2 t)
  note d = depth_need [OF 2(2) assms]
  note b = built_table [OF 2(2) d(2)]
  note r = root_leaves [OF 2(2)]
  have "\<not> prefix (code_bits (table_of t ! a)) (code_bits (table_of t ! b))"
    if ab: "a < NUM_CHARS" "b < NUM_CHARS" "a \<noteq> b"
      and pos: "0 < len (table_of t ! a)" "0 < len (table_of t ! b)" for a b
  proof -
    have leaf: "\<exists>p. (c, p) \<in> set (leaf_paths t)" if "c < NUM_CHARS" "0 < len (table_of t ! c)" for c
    proof (rule ccontr)
      assume "\<not> ?thesis"
      with r(2) have "c \<notin> set (alphabet fr)" by force
      from b(3) [OF this that(1)] that(2) show False by simp
    qed
    from leaf [OF ab(1) pos(1)] obtain p where p: "(a, p) \<in> set (leaf_paths t)" ..
    from leaf [OF ab(2) pos(2)] obtain q where q: "(b, q) \<in> set (leaf_paths t)" ..
    from leaf_paths_height [OF p] leaf_paths_height [OF q] d(1)
    have "length p \<le> 64" "length q \<le> 64" by simp_all
    then have "code_bits (table_of t ! a) = p" "code_bits (table_of t ! b) = q"
      by (simp_all add: b(2) [OF p] b(2) [OF q] code_bits_entry)
    with leaf_paths_prefix [OF p q _ r(1)] ab(3) show ?thesis by auto
  qed
  with b(1) show ?thesis
    by (auto simp: prefix_free_table_def)
qed

lemma entry_within_length:
  "unat (code (entry_at 0 0 p)) < 2 ^ nat (len (entry_at 0 0 p)) \<and>
   (\<forall>i\<ge>nat (len (entry_at 0 0 p)). \<not> bit (code (entry_at 0 0 p)) i) \<and>
   (len (entry_at 0 0 p) = 0 \<longrightarrow> code (entry_at 0 0 p) = 0)"
  by (simp add: entry_at_def walk_bound walk_high_bits)

lemma within_length_built:
  assumes "tree_depth fr (replicate NUM_CHARS zero_entry) \<le> MAX_CODE_LEN"
  shows "\<exists>cc. build_char_codes fr (replicate NUM_CHARS zero_entry) = Inr cc \<and>
           (\<forall>c<NUM_CHARS. unat (code (cc ! c)) < 2 ^ nat (len (cc ! c)) \<and>
              (\<forall>i\<ge>nat (len (cc ! c)). \<not> bit (code (cc ! c)) i) \<and>
              (len (cc ! c) = 0 \<longrightarrow> code (cc ! c) = 0))"
proof (cases fr rule: root_cases)
  case 1
  then show ?thesis by simp
next
  case (2 t)
  note d = depth_need [OF 2(2) assms]
  note b = built_table [OF 2(2) d(2)]
  note r = root_leaves [OF 2(2)]
  have "unat (code (table_of t ! c)) < 2 ^ nat (len (table_of t ! c)) \<and>
      (\<forall>i\<ge>nat (len (table_of t ! c)). \<not> bit (code (table_of t ! c)) i) \<and>
      (len (table_of t ! c) = 0 \<longrightarrow> code (table_of t ! c) = 0)"
    if c: "c < NUM_CHARS" for c
  proof (cases "c \<in> set (alphabet fr)")
    case True
    with r(2) obtain p where "(c, p) \<in> set (leaf_paths t)" by force
    from b(2) [OF this] entry_within_length [of p] show ?thesis by simp
  next
    case False
    from b(3) [OF False c] show ?thesis by simp
  qed
  with b(1) show ?thesis by blast
qed

lemma overlong_code_kept:
  assumes "huffman_root fr (replicate NUM_CHARS zero_entry) = Inr (Some t)" "need t \<le> MAX_CODE_LEN * 2"
    and "(s, p) \<in> set (leaf_paths t)"
  shows "\<exists>cc. build_char_codes fr (replicate NUM_CHARS zero_entry) = Inr cc \<and> len (cc ! s) = int (length p) \<and>
           unat (code (cc ! s)) = path_value p mod 2 ^ 64"
  using built_table(1,2) [OF assms(1,2)] assms(3)
  by (simp add: entry_at_def walk_path_value)

section \<open>The cost of the code that is built\<close>

lemma sum_list_perm:
  fixes g :: "nat \<Rightarrow> nat"
  assumes "mset xs = mset ys"
  shows "(\<Sum>x\<leftarrow>xs. g x) = (\<Sum>y\<leftarrow>ys. g y)"
proof -
  have "(\<Sum>x\<leftarrow>xs. g x) = sum_mset (image_mset g (mset xs))" for xs
    by (induction xs) simp_all
  then show ?thesis
    by (simp only: assms)
qed

lemma weighted_length_tree:
  assumes "huffman_root fr (replicate NUM_CHARS zero_entry) = Inr (Some t)" "need t \<le> MAX_CODE_LEN * 2"
  shows "weighted_length fr (\<lambda>c. nat (len (table_of t ! c))) = tcost t"
proof -
  note r = root_leaves [OF assms(1)]
  note b = built_table [OF assms]
  let ?g = "\<lambda>c. unat (fr c) * nat (len (table_of t ! c))"
  have "tcost t = (\<Sum>(s, p)\<leftarrow>leaf_paths t. unat (fr s) * length p)"
    using r(3) by (rule tcost_paths)
  also have "\<dots> = (\<Sum>x\<leftarrow>leaf_paths t. ?g (fst x))"
  proof (rule arg_cong [where f = sum_list], rule map_cong [OF refl])
    fix x assume x: "x \<in> set (leaf_paths t)"
    obtain s p where sp: "x = (s, p)" by (cases x)
    with x b(2) [of s p] show "(case x of (s, p) \<Rightarrow> unat (fr s) * length p) = ?g (fst x)"
      by (simp add: entry_at_def)
  qed
  also have "\<dots> = (\<Sum>s\<leftarrow>map fst (leaf_paths t). ?g s)"
    by (simp add: comp_def)
  also have "\<dots> = (\<Sum>c\<leftarrow>alphabet fr. ?g c)"
    using r(5) by (rule sum_list_perm)
  finally show ?thesis
    by (simp add: weighted_length_def)
qed

lemma merge_cost_le_weighted:
  assumes "prefix_free_on (set (alphabet fr)) cw"
  shows "merge_cost (image_mset (\<lambda>c. unat (fr c)) (mset (alphabet fr))) \<le>
         weighted_length fr (\<lambda>c. length (cw c))"
proof -
  have "merge_cost (image_mset (\<lambda>c. unat (fr c)) (mset_set (set (alphabet fr)))) \<le>
      (\<Sum>s\<in>set (alphabet fr). unat (fr s) * length (cw s))"
    using assms by (intro merge_cost_le_code) simp_all
  then show ?thesis
    by (simp add: weighted_length_def mset_set_set sum_list_distinct_conv_sum_set)
qed

definition path_code :: "node \<Rightarrow> nat \<Rightarrow> bool list" where
  "path_code t s = (case map_of (leaf_paths t) s of Some p \<Rightarrow> p | None \<Rightarrow> [])"

lemma path_code_leaf:
  "distinct (map fst (leaf_paths t)) \<Longrightarrow> (s, p) \<in> set (leaf_paths t) \<Longrightarrow> path_code t s = p"
  by (simp add: path_code_def)

lemma path_code_prefix_free:
  assumes "huffman_root fr (replicate NUM_CHARS zero_entry) = Inr (Some t)" "need t \<le> MAX_CODE_LEN * 2"
  shows "prefix_free_on (set (alphabet fr)) (path_code t)"
    and "\<forall>c\<in>set (alphabet fr). int (length (path_code t c)) = len (table_of t ! c)"
proof -
  note r = root_leaves [OF assms(1)]
  note b = built_table [OF assms]
  have leaf: "\<exists>p. (c, p) \<in> set (leaf_paths t) \<and> path_code t c = p" if "c \<in> set (alphabet fr)" for c
  proof -
    from that r(2) obtain p where "(c, p) \<in> set (leaf_paths t)" by force
    with path_code_leaf [OF r(1) this] show ?thesis by blast
  qed
  show "prefix_free_on (set (alphabet fr)) (path_code t)"
    unfolding prefix_free_on_def
  proof (intro ballI impI notI)
    fix a b
    assume ab: "a \<in> set (alphabet fr)" "b \<in> set (alphabet fr)" "a \<noteq> b"
      and pre: "prefix (path_code t a) (path_code t b)"
    from leaf [OF ab(1)] leaf [OF ab(2)] pre leaf_paths_prefix [OF _ _ _ r(1)]
    have "a = b" by blast
    with ab(3) show False ..
  qed
  show "\<forall>c\<in>set (alphabet fr). int (length (path_code t c)) = len (table_of t ! c)"
  proof
    fix c assume "c \<in> set (alphabet fr)"
    from leaf [OF this] obtain p where p: "(c, p) \<in> set (leaf_paths t)" "path_code t c = p"
      by blast
    with b(2) [OF p(1)] show "int (length (path_code t c)) = len (table_of t ! c)"
      by (simp add: entry_at_def)
  qed
qed

lemma huffman_minimal_general:
  assumes nowrap: "total_weight fr < 2 ^ 64"
    and pf: "prefix_free_on (set (alphabet fr)) cw"
  shows "\<exists>cc. build_char_codes fr (replicate NUM_CHARS zero_entry) = Inr cc \<and>
           weighted_length fr (\<lambda>c. nat (len (cc ! c))) \<le> weighted_length fr (\<lambda>c. length (cw c)) \<and>
           (\<exists>cw0. prefix_free_on (set (alphabet fr)) cw0 \<and>
                  (\<forall>c\<in>set (alphabet fr). int (length (cw0 c)) = len (cc ! c)))"
proof (cases fr rule: root_cases)
  case 1
  then show ?thesis
    by (simp add: weighted_length_def prefix_free_on_def)
next
  case (2 t)
  note r = root_leaves [OF 2(2)]
  from r(6,7) [OF nowrap] nowrap have n: "need t \<le> MAX_CODE_LEN * 2"
    by (intro need_small) simp_all
  note b = built_table [OF 2(2) n]
  have "weighted_length fr (\<lambda>c. nat (len (table_of t ! c))) = tcost t"
    using 2(2) n by (rule weighted_length_tree)
  also have "\<dots> = merge_cost (image_mset (\<lambda>c. unat (fr c)) (mset (alphabet fr)))"
    using nowrap by (rule r(8))
  also have "\<dots> \<le> weighted_length fr (\<lambda>c. length (cw c))"
    using pf by (rule merge_cost_le_weighted)
  finally have "weighted_length fr (\<lambda>c. nat (len (table_of t ! c))) \<le>
      weighted_length fr (\<lambda>c. length (cw c))" .
  with b(1) path_code_prefix_free [OF 2(2) n] show ?thesis
    by blast
qed

text \<open>
  With two or more symbols of nonzero frequency the root is an internal node, and
  every symbol of nonzero frequency gets a positive code length.
\<close>

lemma several_symbols_positive_length:
  assumes "2 \<le> length (alphabet fr)" and "total_weight fr < 2 ^ 64"
    and "c \<in> set (alphabet fr)"
  shows "\<exists>cc. build_char_codes fr (replicate NUM_CHARS zero_entry) = Inr cc \<and> 0 < len (cc ! c)"
proof (cases fr rule: root_cases)
  case 1
  with assms(1) show ?thesis by simp
next
  case (2 t)
  note r = root_leaves [OF 2(2)]
  from r(6,7) [OF assms(2)] assms(2) have n: "need t \<le> MAX_CODE_LEN * 2"
    by (intro need_small) simp_all
  note b = built_table [OF 2(2) n]
  from assms(3) r(2) obtain p where p: "(c, p) \<in> set (leaf_paths t)" by force
  have "p \<noteq> []"
  proof (cases t)
    case (Leaf s w)
    with r(5) have "length (alphabet fr) = 1"
      by (metis leaf_paths.simps(1) length_map list.size(3,4) One_nat_def size_mset add_0)
    with assms(1) show ?thesis by simp
  next
    case (Inner w l rt)
    with p show ?thesis by auto
  qed
  with b(1) b(2) [OF p] show ?thesis
    by (simp add: entry_at_def)
qed

section \<open>The encoder\<close>

definition in_int :: "int \<Rightarrow> bool" where
  "in_int b = (INT_MIN \<le> b \<and> b \<le> INT_MAX)"

definition code_lengths :: "code_table \<Rightarrow> string \<Rightarrow> int list" where
  "code_lengths cc cmd = map (\<lambda>p. len (cc ! of_char p)) cmd"

definition nonneg_lengths :: "code_table \<Rightarrow> bool" where
  "nonneg_lengths cc = list_all (\<lambda>e. 0 \<le> len e) cc"

lemma nonneg_lengths_nth:
  "nonneg_lengths cc \<Longrightarrow> length cc = NUM_CHARS \<Longrightarrow> 0 \<le> len (cc ! of_char p)"
proof -
  assume a: "nonneg_lengths cc" and l: "length cc = NUM_CHARS"
  have "(of_char p :: nat) < 256"
    by (cases p) simp
  with l have "cc ! of_char p \<in> set cc"
    by (simp add: NUM_CHARS_def)
  with a show ?thesis
    by (simp add: nonneg_lengths_def list_all_iff)
qed

lemma encode_loop_sum:
  assumes "nonneg_lengths cc" "length cc = NUM_CHARS"
  shows "0 \<le> b \<Longrightarrow> b + sum_list (code_lengths cc cmd) \<le> INT_MAX \<Longrightarrow>
         encode_loop cc b cmd = Inr (b + sum_list (code_lengths cc cmd))"
proof (induction cmd arbitrary: b)
  case Nil
  show ?case by (simp add: code_lengths_def)
next
  case (Cons p ps)
  have nn: "0 \<le> len (cc ! of_char p)"
    using assms by (rule nonneg_lengths_nth)
  have rest: "0 \<le> sum_list (code_lengths cc ps)"
    unfolding code_lengths_def
    by (rule sum_list_nonneg) (auto intro: nonneg_lengths_nth [OF assms])
  from Cons.prems nn rest have "int_add b (len (cc ! of_char p)) = Inr (b + len (cc ! of_char p))"
    by (simp add: int_add_def INT_MIN_def code_lengths_def)
  moreover from Cons.prems nn have "encode_loop cc (b + len (cc ! of_char p)) ps =
      Inr (b + len (cc ! of_char p) + sum_list (code_lengths cc ps))"
    by (intro Cons.IH) (simp_all add: code_lengths_def)
  ultimately show ?case
    by (simp add: code_lengths_def)
qed

lemma encode_loop_overflow:
  assumes "nonneg_lengths cc" "length cc = NUM_CHARS"
  shows "0 \<le> b \<Longrightarrow> b \<le> INT_MAX \<Longrightarrow> INT_MAX < b + sum_list (code_lengths cc cmd) \<Longrightarrow>
         encode_loop cc b cmd = Inl SignedOverflow"
proof (induction cmd arbitrary: b)
  case Nil
  then show ?case
    by (simp add: code_lengths_def)
next
  case (Cons p ps)
  have nn: "0 \<le> len (cc ! of_char p)"
    using assms by (rule nonneg_lengths_nth)
  show ?case
  proof (cases "b + len (cc ! of_char p) \<le> INT_MAX")
    case True
    with Cons.prems nn have "int_add b (len (cc ! of_char p)) = Inr (b + len (cc ! of_char p))"
      by (simp add: int_add_def INT_MIN_def)
    moreover from Cons.prems nn True have "encode_loop cc (b + len (cc ! of_char p)) ps = Inl SignedOverflow"
      by (intro Cons.IH) (simp_all add: code_lengths_def)
    ultimately show ?thesis
      by simp
  next
    case False
    then show ?thesis
      by (simp add: int_add_def)
  qed
qed

lemma c_div_8: "0 \<le> a \<Longrightarrow> c_div a 8 = a div 8"
  by (simp add: c_div_def sgn_if)

text \<open>
  C6 (as amended): for every input string and every code table of 256 entries with no
  negative code length (\<^verbatim>\<open>build_char_codes\<close> writes no other), if the sum of the code
  lengths of the string's characters is at most \<open>INT_MAX - 7\<close>, \<^verbatim>\<open>encode_command\<close>
  returns that sum as the bit length and its quotient by 8, rounded up, as the byte
  length.
\<close>

theorem encode_lengths:
  assumes "nonneg_lengths cc" and "length cc = NUM_CHARS"
    and "sum_list (code_lengths cc cmd) + 7 \<le> INT_MAX"
  shows "encode_command cc cmd =
           Inr (sum_list (code_lengths cc cmd), \<lceil>real_of_int (sum_list (code_lengths cc cmd)) / 8\<rceil>)"
proof -
  let ?n = "sum_list (code_lengths cc cmd)"
  have nn: "0 \<le> ?n"
    unfolding code_lengths_def
    by (rule sum_list_nonneg) (auto intro: nonneg_lengths_nth [OF assms(1,2)])
  from assms have loop: "encode_loop cc 0 cmd = Inr ?n"
    using encode_loop_sum [OF assms(1,2), of 0 cmd] by simp
  from nn assms(3) have add: "int_add ?n 7 = Inr (?n + 7)"
    by (simp add: int_add_def INT_MIN_def)
  have "\<lceil>real_of_int ?n / real_of_int 8\<rceil> = - (- ?n div 8)"
    by (rule ceiling_divide_eq_div)
  also have "\<dots> = (?n + 7) div 8"
    by presburger
  finally have "\<lceil>real_of_int ?n / 8\<rceil> = (?n + 7) div 8"
    by simp
  with nn loop add show ?thesis
    by (simp add: encode_command_def c_div_8)
qed

definition scenario_table :: code_table where
  "scenario_table = (replicate 256 zero_entry)
     [97 := \<lparr>code = 0, len = 1\<rparr>, 98 := \<lparr>code = 3, len = 2\<rparr>, 99 := \<lparr>code = 2, len = 2\<rparr>]"

lemma scenario_table_ok: "nonneg_lengths scenario_table" "length scenario_table = NUM_CHARS"
  by code_simp+

theorem encode_lengths_witness:
  "encode_command scenario_table ''abc'' = Inr (5, 1)"
proof -
  have "code_lengths scenario_table ''abc'' = [1, 2, 2]"
    by (simp add: code_lengths_def scenario_table_def)
  with encode_lengths [OF scenario_table_ok, of "''abc''"] show ?thesis
    by (simp add: INT_MAX_def)
qed

text \<open>
  The claim as stated fails where the sum does not fit an \<^verbatim>\<open>int\<close>: the string of
  \<open>2^31\<close> characters \<open>a\<close>, each of code length 1.
\<close>

theorem encode_overflow_counterexample:
  "encode_command scenario_table (replicate 2147483648 CHR ''a'') = Inl SignedOverflow"
proof -
  have "code_lengths scenario_table (replicate 2147483648 CHR ''a'') = replicate 2147483648 1"
    by (simp add: code_lengths_def scenario_table_def)
  then have "sum_list (code_lengths scenario_table (replicate 2147483648 CHR ''a'')) = 2147483648"
    by (simp add: sum_list_replicate)
  then have "encode_loop scenario_table 0 (replicate 2147483648 CHR ''a'') = Inl SignedOverflow"
    by (intro encode_loop_overflow [OF scenario_table_ok]) (simp_all add: INT_MAX_def)
  then show ?thesis
    by (simp add: encode_command_def)
qed

lemma int_add_in_int: "int_add a b = Inr c \<Longrightarrow> in_int c"
  by (auto simp: int_add_def in_int_def split: if_splits)

lemma encode_loop_skip:
  "len (cc ! of_char p) = 0 \<Longrightarrow> in_int b \<Longrightarrow>
   encode_loop cc b (xs @ p # ys) = encode_loop cc b (xs @ ys)"
proof (induction xs arbitrary: b)
  case Nil
  then show ?case
    by (simp add: int_add_def in_int_def)
next
  case (Cons x xs)
  show ?case
  proof (cases "int_add b (len (cc ! of_char x))")
    case (Inl e)
    then show ?thesis by simp
  next
    case (Inr b')
    then have "in_int b'" by (rule int_add_in_int)
    with Cons.IH [OF Cons.prems(1), of b'] Inr show ?thesis
      by simp
  qed
qed

text \<open>
  C3 (as amended): \<^verbatim>\<open>encode_command\<close> has no failure for an unknown symbol; a byte
  whose code length in the table is 0 contributes zero bits, so the result is the one
  for the string without that byte.
\<close>

theorem encode_zero_length_silent:
  assumes "len (cc ! of_char p) = 0"
  shows "encode_command cc (xs @ p # ys) = encode_command cc (xs @ ys)"
  using encode_loop_skip [OF assms, of 0 xs ys]
  by (simp add: encode_command_def in_int_def INT_MIN_def INT_MAX_def)

theorem encode_zero_length_silent_witness:
  "encode_command scenario_table (''a'' @ CHR ''d'' # ''b'') = encode_command scenario_table (''a'' @ ''b'')"
  using encode_zero_length_silent [of scenario_table "CHR ''d''" "''a''" "''b''"]
  by (simp add: scenario_table_def zero_entry_def)

text \<open>
  The claim as stated fails: \<open>d\<close> has code length 0 in the table of the scenario, and
  encoding \<open>ad\<close> succeeds with the result of encoding \<open>a\<close>.
\<close>

theorem encode_unknown_symbol_counterexample:
  "len (scenario_table ! of_char CHR ''d'') = 0 \<and>
   encode_command scenario_table ''ad'' = Inr (1, 1) \<and>
   encode_command scenario_table ''a'' = Inr (1, 1)"
  by (simp add: scenario_table_def zero_entry_def encode_command_def int_add_def
      INT_MIN_def INT_MAX_def c_div_def)

text \<open>
  \<^verbatim>\<open>encode_command\<close> reads the global table, which only \<^verbatim>\<open>build_char_codes\<close> writes:
  the table it finds has 256 entries and no negative length.
\<close>

lemma nonneg_lengths_update:
  "nonneg_lengths cc \<Longrightarrow> 0 \<le> l \<Longrightarrow> nonneg_lengths (cc[s := \<lparr>code = c, len = l\<rparr>])"
  unfolding nonneg_lengths_def list_all_iff
  using set_update_subset_insert [of cc s "\<lparr>code = c, len = l\<rparr>"] by auto

lemma dfs_nonneg:
  "dfs st cc = Inr cc' \<Longrightarrow> \<forall>f\<in>set st. 0 \<le> snd (snd f) \<Longrightarrow> nonneg_lengths cc \<Longrightarrow>
   nonneg_lengths cc' \<and> length cc' = length cc"
proof (induction st cc rule: dfs.induct)
  case (1 cc)
  then show ?case by simp
next
  case (2 s w c l st cc)
  from "2.prems" have "nonneg_lengths (cc[s := \<lparr>code = c, len = l\<rparr>])"
    by (intro nonneg_lengths_update) simp_all
  with "2.prems" "2.IH" show ?case by simp
next
  case (3 w lt rt c l st cc)
  show ?case
  proof (cases "length st + 2 > MAX_CODE_LEN * 2")
    case True
    with "3.prems"(1) show ?thesis by simp
  next
    case False
    with "3.prems" "3.IH" show ?thesis by simp
  qed
qed

lemma built_nonneg:
  assumes "length cc0 = NUM_CHARS" "build_char_codes fr cc0 = Inr cc"
  shows "nonneg_lengths cc \<and> length cc = NUM_CHARS"
proof -
  have z: "nonneg_lengths (replicate NUM_CHARS zero_entry)"
    by (simp add: nonneg_lengths_def list_all_iff)
  from assms have b: "build_char_codes fr (replicate NUM_CHARS zero_entry) = Inr cc"
    by (simp only: build_char_codes_any)
  show ?thesis
  proof (cases fr rule: root_cases)
    case 1
    with b have "cc = replicate NUM_CHARS zero_entry" by simp
    with z show ?thesis by simp
  next
    case (2 t)
    from root_leaves(4) [OF 2(2)] b have "dfs [(t, 0, 0)] (replicate NUM_CHARS zero_entry) = Inr cc"
      by simp
    from dfs_nonneg [OF this _ z] show ?thesis by simp
  qed
qed

section \<open>Example inputs\<close>

definition scenario_freq :: freq_table where
  "scenario_freq = (\<lambda>c. if c = 97 then 3 else if c = 98 then 2 else if c = 99 then 1 else 0)"

definition scenario_tree :: node where
  "scenario_tree = Inner 6 (Leaf 97 3) (Inner 3 (Leaf 99 1) (Leaf 98 2))"

lemma scenario_count: "count_char_freq [''aab'', ''abc''] = scenario_freq"
  by (simp add: count_char_freq_def scenario_freq_def fun_eq_iff)

lemma scenario_root: "huffman_root scenario_freq (replicate NUM_CHARS zero_entry) = Inr (Some scenario_tree)"
  by code_simp

lemma scenario_build: "build_char_codes scenario_freq (replicate NUM_CHARS zero_entry) = Inr scenario_table"
  by code_simp

definition textbook_freq :: freq_table where
  "textbook_freq = (\<lambda>c. if c = 97 then 5 else if c = 98 then 9 else if c = 99 then 12
      else if c = 100 then 13 else if c = 101 then 16 else if c = 102 then 45 else 0)"

definition textbook_table :: code_table where
  "textbook_table = (replicate 256 zero_entry)
     [97 := \<lparr>code = 12, len = 4\<rparr>, 98 := \<lparr>code = 13, len = 4\<rparr>, 99 := \<lparr>code = 4, len = 3\<rparr>,
      100 := \<lparr>code = 5, len = 3\<rparr>, 101 := \<lparr>code = 7, len = 3\<rparr>, 102 := \<lparr>code = 0, len = 1\<rparr>]"

lemma textbook_build: "build_char_codes textbook_freq (replicate NUM_CHARS zero_entry) = Inr textbook_table"
  by code_simp

lemma textbook_alphabet: "alphabet textbook_freq = [97, 98, 99, 100, 101, 102]"
  by code_simp

text \<open>A fixed-length code of three bits for the symbols \<open>a\<close> to \<open>h\<close>.\<close>

definition three_bit :: "nat \<Rightarrow> bool list" where
  "three_bit c = map (bit (c - 97)) [2, 1, 0]"

lemma textbook_three_bit: "prefix_free_on (set (alphabet textbook_freq)) three_bit"
  unfolding textbook_alphabet by code_simp

lemma textbook_total: "total_weight textbook_freq = 100"
  unfolding total_weight_def textbook_alphabet by (simp add: textbook_freq_def)

definition single_freq :: freq_table where
  "single_freq = (\<lambda>c. if c = 97 then 3 else 0)"

lemma single_count: "count_char_freq [''aaa''] = single_freq"
  by (simp add: count_char_freq_def single_freq_def fun_eq_iff)

lemma single_build: "build_char_codes single_freq (replicate NUM_CHARS zero_entry) = Inr (replicate 256 zero_entry)"
  by code_simp

definition wrap_freq :: freq_table where
  "wrap_freq = (\<lambda>c. if 97 \<le> c \<and> c \<le> 100 then 2 ^ 63 else 0)"

definition wrap_table :: code_table where
  "wrap_table = (replicate 256 zero_entry)
     [97 := \<lparr>code = 4, len = 3\<rparr>, 98 := \<lparr>code = 0, len = 1\<rparr>, 99 := \<lparr>code = 3, len = 2\<rparr>,
      100 := \<lparr>code = 5, len = 3\<rparr>]"

lemma wrap_build: "build_char_codes wrap_freq (replicate NUM_CHARS zero_entry) = Inr wrap_table"
  by code_simp

lemma wrap_alphabet: "alphabet wrap_freq = [97, 98, 99, 100]"
  by code_simp

definition two_bit :: "nat \<Rightarrow> bool list" where
  "two_bit c = map (bit (c - 97)) [1, 0]"

lemma wrap_two_bit: "prefix_free_on (set (alphabet wrap_freq)) two_bit"
  unfolding wrap_alphabet by code_simp

lemma wrap_costs:
  "weighted_length wrap_freq (\<lambda>c. length (two_bit c)) = 8 * 2 ^ 63"
  "weighted_length wrap_freq (\<lambda>c. nat (len (wrap_table ! c))) = 9 * 2 ^ 63"
  unfolding weighted_length_def wrap_alphabet
  by (simp_all add: wrap_freq_def two_bit_def wrap_table_def)

section \<open>A frequency table with a tree of depth 65\<close>

text \<open>
  Sixty-six symbols whose frequencies grow like the Fibonacci numbers: every merge
  joins the lightest remaining leaf with the tree built so far, so the tree is a chain
  of depth 65.
\<close>

definition skew_weights :: "ulong list" where
  "skew_weights =
    [2, 2, 3, 5, 8, 13, 21, 34, 55, 89, 144, 233, 377, 610, 987, 1597, 2584,
     4181, 6765, 10946, 17711, 28657, 46368, 75025, 121393, 196418, 317811,
     514229, 832040, 1346269, 2178309, 3524578, 5702887, 9227465, 14930352,
     24157817, 39088169, 63245986, 102334155, 165580141, 267914296, 433494437,
     701408733, 1134903170, 1836311903, 2971215073, 4807526976, 7778742049,
     12586269025, 20365011074, 32951280099, 53316291173, 86267571272,
     139583862445, 225851433717, 365435296162, 591286729879, 956722026041,
     1548008755920, 2504730781961, 4052739537881, 6557470319842,
     10610209857723, 17167680177565, 27777890035288, 44945570212853]"

definition skew_freq :: freq_table where
  "skew_freq c = (if c < 66 then skew_weights ! c else 0)"

fun chain :: "node \<Rightarrow> nat \<Rightarrow> ulong list \<Rightarrow> node" where
  "chain t s [] = t"
| "chain t s (w # ws) = chain (Inner (w + freq t) (Leaf s w) t) (Suc s) ws"

definition skew_tree :: node where
  "skew_tree = chain (Inner 4 (Leaf 0 2) (Leaf 1 2)) 2 (drop 2 skew_weights)"

lemma skew_root: "huffman_root skew_freq (replicate NUM_CHARS zero_entry) = Inr (Some skew_tree)"
  by code_simp

lemma need_chain: "need (chain t s ws) \<le> max 2 (need t)"
proof (induction ws arbitrary: t s)
  case Nil
  show ?case by simp
next
  case (Cons w ws)
  have "need (chain (Inner (w + freq t) (Leaf s w) t) (Suc s) ws) \<le>
      max 2 (need (Inner (w + freq t) (Leaf s w) t))"
    by (rule Cons.IH)
  then show ?case by simp
qed

lemma skew_need: "need skew_tree \<le> MAX_CODE_LEN * 2"
  using need_chain [of "Inner 4 (Leaf 0 2) (Leaf 1 2)" 2 "drop 2 skew_weights"]
  by (simp add: skew_tree_def MAX_CODE_LEN_def)

lemma chain_old_leaf:
  "(x, p) \<in> set (leaf_paths t) \<Longrightarrow>
   (x, replicate (length ws) True @ p) \<in> set (leaf_paths (chain t s ws))"
proof (induction ws arbitrary: t s p)
  case Nil
  then show ?case by simp
next
  case (Cons w ws)
  from Cons.prems have "(x, True # p) \<in> set (leaf_paths (Inner (w + freq t) (Leaf s w) t))"
    by force
  from Cons.IH [OF this, of "Suc s"] show ?case
    by (simp add: replicate_app_Cons_same)
qed

lemma chain_last_leaf:
  "(s + length ws, [False]) \<in> set (leaf_paths (chain t s (ws @ [w])))"
proof (induction ws arbitrary: t s)
  case Nil
  show ?case by simp
next
  case (Cons v ws)
  from Cons.IH [of "Suc s" "Inner (v + freq t) (Leaf s v) t"] show ?case
    by simp
qed

lemma skew_deep_leaf: "(0, replicate 64 True @ [False]) \<in> set (leaf_paths skew_tree)"
proof -
  have l: "length (drop 2 skew_weights) = 64"
    by (simp add: skew_weights_def)
  have "(0, [False]) \<in> set (leaf_paths (Inner 4 (Leaf 0 2) (Leaf 1 2)))"
    by simp
  from chain_old_leaf [OF this, of "drop 2 skew_weights" 2] show ?thesis
    unfolding skew_tree_def l .
qed

lemma skew_top_leaf: "(65, [False]) \<in> set (leaf_paths skew_tree)"
proof -
  have "drop 2 skew_weights = butlast (drop 2 skew_weights) @ [44945570212853]"
    by (simp add: skew_weights_def)
  moreover have "length (butlast (drop 2 skew_weights)) = 63"
    by (simp add: skew_weights_def)
  ultimately show ?thesis
    using chain_last_leaf [of 2 "butlast (drop 2 skew_weights)" "Inner 4 (Leaf 0 2) (Leaf 1 2)" 44945570212853]
    by (simp add: skew_tree_def)
qed

lemma fold_ones:
  fixes k :: nat
  shows "fold (\<lambda>b n. 2 * n + of_bool b) (replicate m True) k + 1 = 2 ^ m * (k + 1)"
  by (induction m arbitrary: k) (simp_all add: algebra_simps)

lemma deep_path_value: "path_value (replicate 64 True @ [False]) = 2 ^ 65 - 2"
proof -
  have "fold (\<lambda>b n. 2 * n + of_bool b) (replicate 64 True) (0::nat) = 2 ^ 64 - 1"
    using fold_ones [of 64 0] by simp
  then show ?thesis
    by (simp add: path_value_def)
qed

text \<open>A table as an earlier call could have left it, for the examples.\<close>

definition stale_table :: code_table where
  "stale_table = replicate NUM_CHARS \<lparr>code = 5, len = 3\<rparr>"

lemma stale_length: "length stale_table = NUM_CHARS"
  by (simp add: stale_table_def)

lemma tree_depth_any:
  "length cc0 = NUM_CHARS \<Longrightarrow> tree_depth fr cc0 = tree_depth fr (replicate NUM_CHARS zero_entry)"
  using huffman_root_any [of cc0 fr] by (simp add: tree_depth_def)

lemma scenario_depth: "tree_depth scenario_freq stale_table \<le> MAX_CODE_LEN"
  unfolding tree_depth_any [OF stale_length]
  by (simp add: tree_depth_def scenario_root scenario_tree_def MAX_CODE_LEN_def)

section \<open>The claims\<close>

text \<open>
  C1 (as amended): for every frequency table whose tree is at most 64 levels deep, the
  code table of \<^verbatim>\<open>build_char_codes\<close> is prefix-free on the assigned codes: for two
  distinct symbols of positive code length, the code of the one, read as a bit string
  of its recorded length, is not a prefix of the code of the other.
\<close>

theorem prefix_free_within_width:
  assumes "length cc0 = NUM_CHARS" and "tree_depth fr cc0 \<le> MAX_CODE_LEN"
  shows "\<exists>cc. build_char_codes fr cc0 = Inr cc \<and> prefix_free_table cc"
  using assms(2)
  unfolding tree_depth_any [OF assms(1)] build_char_codes_any [OF assms(1)]
  by (rule prefix_free_built)

theorem prefix_free_within_width_witness:
  "\<exists>cc. build_char_codes scenario_freq stale_table = Inr cc \<and> prefix_free_table cc"
  using prefix_free_within_width [OF stale_length scenario_depth] .

text \<open>
  The claim as stated fails on a deeper tree. For the frequencies \<open>skew_weights\<close> the
  symbol 0 lies 65 levels deep on the path of 64 right edges and one left edge; the
  65-bit path does not fit the 64-bit code value, whose bits 0 to 63 are kept. Read
  at its recorded length of 65 bits the entry starts with a zero bit, and the code of
  symbol 65, the single bit 0, is a prefix of it. (Bit 64 of a 64-bit value reads as 0
  here; a shift by 64 that wraps to a shift by 0 reads bit 0 instead, which is 0 for
  this entry as well.)
\<close>

lemma skew_entries:
  "build_char_codes skew_freq (replicate NUM_CHARS zero_entry) = Inr (table_of skew_tree)"
  "table_of skew_tree ! 0 = entry_at 0 0 (replicate 64 True @ [False])"
  "table_of skew_tree ! 65 = entry_at 0 0 [False]"
  using built_table(1,2) [OF skew_root skew_need] skew_deep_leaf skew_top_leaf
  by simp_all

theorem prefix_free_counterexample:
  "\<exists>cc. build_char_codes skew_freq stale_table = Inr cc \<and>
        (65::nat) < NUM_CHARS \<and> (0::nat) < NUM_CHARS \<and>
        0 < len (cc ! 65) \<and> 0 < len (cc ! 0) \<and>
        prefix (code_bits (cc ! 65)) (code_bits (cc ! 0)) \<and> \<not> prefix_free_table cc"
proof -
  let ?cc = "table_of skew_tree"
  have top: "code_bits (?cc ! 65) = [False]"
    unfolding skew_entries by (rule code_bits_entry) simp
  have "len (?cc ! 0) = 65"
    unfolding skew_entries by (simp add: entry_at_def)
  moreover have "[0..<65] = [0..<64] @ [64::nat]"
    using upt_Suc_append [of 0 64] by simp
  ultimately have "code_bits (?cc ! 0) =
      bit (code (?cc ! 0)) 64 # map (bit (code (?cc ! 0))) (rev [0..<64])"
    by (simp add: code_bits_def)
  moreover have "\<not> bit (code (?cc ! 0)) 64"
    using bit_imp_le_length [of "code (?cc ! 0)" 64] by auto
  ultimately have pre: "prefix (code_bits (?cc ! 65)) (code_bits (?cc ! 0))"
    unfolding top by simp
  have pos: "0 < len (?cc ! 65)" "0 < len (?cc ! 0)"
    unfolding skew_entries by (simp_all add: entry_at_def)
  have n: "(65::nat) < NUM_CHARS" "(0::nat) < NUM_CHARS"
    by (simp_all add: NUM_CHARS_def)
  have "\<not> prefix_free_table ?cc"
    unfolding prefix_free_table_def using pre pos n by (metis zero_neq_numeral)
  with skew_entries(1) pre pos n show ?thesis
    unfolding build_char_codes_any [OF stale_length] by blast
qed

text \<open>
  C2 (as amended): for every frequency table whose frequencies sum to less than
  \<open>2^64\<close>, the code lengths assigned by \<^verbatim>\<open>build_char_codes\<close> are the lengths of a
  prefix-free code for the symbols of nonzero frequency, and no prefix-free code for
  these symbols has a smaller sum of frequency times code length; the frequencies
  a:5, b:9, c:12, d:13, e:16, f:45 yield the lengths a:4, b:4, c:3, d:3, e:3, f:1.
\<close>

theorem huffman_minimal:
  "(\<forall>fr cw cc0. length cc0 = NUM_CHARS \<longrightarrow> total_weight fr < 2 ^ 64 \<longrightarrow>
      prefix_free_on (set (alphabet fr)) cw \<longrightarrow>
      (\<exists>cc. build_char_codes fr cc0 = Inr cc \<and>
         weighted_length fr (\<lambda>c. nat (len (cc ! c))) \<le> weighted_length fr (\<lambda>c. length (cw c)) \<and>
         (\<exists>cw0. prefix_free_on (set (alphabet fr)) cw0 \<and>
                (\<forall>c\<in>set (alphabet fr). int (length (cw0 c)) = len (cc ! c))))) \<and>
   (\<forall>cc0. length cc0 = NUM_CHARS \<longrightarrow>
      (\<exists>cc. build_char_codes textbook_freq cc0 = Inr cc \<and>
         len (cc ! of_char CHR ''a'') = 4 \<and> len (cc ! of_char CHR ''b'') = 4 \<and>
         len (cc ! of_char CHR ''c'') = 3 \<and> len (cc ! of_char CHR ''d'') = 3 \<and>
         len (cc ! of_char CHR ''e'') = 3 \<and> len (cc ! of_char CHR ''f'') = 1))"
proof (intro conjI allI impI)
  fix fr cw and cc0 :: code_table
  assume len0: "length cc0 = NUM_CHARS"
  assume "total_weight fr < 2 ^ 64" "prefix_free_on (set (alphabet fr)) cw"
  then show "\<exists>cc. build_char_codes fr cc0 = Inr cc \<and>
         weighted_length fr (\<lambda>c. nat (len (cc ! c))) \<le> weighted_length fr (\<lambda>c. length (cw c)) \<and>
         (\<exists>cw0. prefix_free_on (set (alphabet fr)) cw0 \<and>
                (\<forall>c\<in>set (alphabet fr). int (length (cw0 c)) = len (cc ! c)))"
    unfolding build_char_codes_any [OF len0] by (rule huffman_minimal_general)
next
  fix cc0 :: code_table
  assume len0: "length cc0 = NUM_CHARS"
  show "\<exists>cc. build_char_codes textbook_freq cc0 = Inr cc \<and>
      len (cc ! of_char CHR ''a'') = 4 \<and> len (cc ! of_char CHR ''b'') = 4 \<and>
      len (cc ! of_char CHR ''c'') = 3 \<and> len (cc ! of_char CHR ''d'') = 3 \<and>
      len (cc ! of_char CHR ''e'') = 3 \<and> len (cc ! of_char CHR ''f'') = 1"
    unfolding build_char_codes_any [OF len0] textbook_build
    by (simp add: textbook_table_def)
qed

theorem huffman_minimal_witness:
  "\<exists>cc. build_char_codes textbook_freq stale_table = Inr cc \<and>
     weighted_length textbook_freq (\<lambda>c. nat (len (cc ! c))) \<le>
       weighted_length textbook_freq (\<lambda>c. length (three_bit c)) \<and>
     (\<exists>cw0. prefix_free_on (set (alphabet textbook_freq)) cw0 \<and>
            (\<forall>c\<in>set (alphabet textbook_freq). int (length (cw0 c)) = len (cc ! c)))"
proof -
  have "total_weight textbook_freq < 2 ^ 64"
    by (simp add: textbook_total)
  with huffman_minimal textbook_three_bit stale_length show ?thesis
    by blast
qed

text \<open>
  The claim as stated fails where the sum of two frequencies wraps around: with four
  symbols of frequency \<open>2^63\<close> the first merged node has frequency 0 and is merged
  again at once, the lengths are 3, 1, 2, 3, and the code of two bits per symbol is
  cheaper.
\<close>

theorem huffman_wraparound_counterexample:
  "\<exists>cc. build_char_codes wrap_freq stale_table = Inr cc \<and>
     length (alphabet wrap_freq) = 4 \<and>
     prefix_free_on (set (alphabet wrap_freq)) two_bit \<and>
     weighted_length wrap_freq (\<lambda>c. length (two_bit c)) <
       weighted_length wrap_freq (\<lambda>c. nat (len (cc ! c)))"
proof -
  have "length (alphabet wrap_freq) = 4"
    by (simp add: wrap_alphabet)
  moreover have "weighted_length wrap_freq (\<lambda>c. length (two_bit c)) <
       weighted_length wrap_freq (\<lambda>c. nat (len (wrap_table ! c)))"
    unfolding wrap_costs by simp
  ultimately show ?thesis
    using wrap_build wrap_two_bit unfolding build_char_codes_any [OF stale_length] by blast
qed

text \<open>
  C4: for the frequency table whose only nonzero entry is a:3 the single leaf is the
  root, the traversal records it with the path of length 0, and \<^verbatim>\<open>build_char_codes\<close>
  returns code length 0 and code value 0 for \<open>a\<close>; the claim says length 1.
\<close>

theorem single_symbol_length_zero:
  "alphabet single_freq = [97] \<and>
   (\<exists>cc. build_char_codes single_freq stale_table = Inr cc \<and> len (cc ! 97) = 0 \<and> code (cc ! 97) = 0)"
proof -
  have "alphabet single_freq = [97]"
    by code_simp
  then show ?thesis
    unfolding build_char_codes_any [OF stale_length] single_build by simp
qed

text \<open>
  C5 (as amended): when the traversal derives a code length above 64 for a symbol,
  \<^verbatim>\<open>build_char_codes\<close> signals nothing and does not stop: as long as the traversal
  stack suffices it returns the table, with the derived length recorded for the symbol
  and the low 64 bits of its path as the code value.
\<close>

theorem overlong_code_not_signalled:
  assumes "length cc0 = NUM_CHARS"
    and "huffman_root fr cc0 = Inr (Some t)" and "need t \<le> MAX_CODE_LEN * 2"
    and "(s, p) \<in> set (leaf_paths t)" and "MAX_CODE_LEN < length p"
  shows "\<exists>cc. build_char_codes fr cc0 = Inr cc \<and> len (cc ! s) = int (length p) \<and>
           unat (code (cc ! s)) = path_value p mod 2 ^ 64"
  using assms(2-4) overlong_code_kept [of fr t s p]
  by (simp add: build_char_codes_any [OF assms(1)] huffman_root_any [OF assms(1)])

lemma skew_root_stale: "huffman_root skew_freq stale_table = Inr (Some skew_tree)"
  by (simp add: huffman_root_any [OF stale_length] skew_root)

theorem overlong_code_not_signalled_witness:
  "\<exists>cc. build_char_codes skew_freq stale_table = Inr cc \<and> len (cc ! 0) = 65 \<and>
        unat (code (cc ! 0)) = (2 ^ 65 - 2) mod 2 ^ 64"
  using overlong_code_not_signalled [OF stale_length skew_root_stale skew_need skew_deep_leaf]
  by (simp add: MAX_CODE_LEN_def deep_path_value)

text \<open>
  The claim as stated fails for the frequencies \<open>skew_weights\<close>: the function returns
  a table in which symbol 0 has length 65 and the code value \<open>2^64 - 2\<close>, while its
  path has the value \<open>2^65 - 2\<close>.
\<close>

theorem code_overflow_counterexample:
  "\<exists>cc. build_char_codes skew_freq stale_table = Inr cc \<and> int MAX_CODE_LEN < len (cc ! 0) \<and>
        code (cc ! 0) = 18446744073709551614 \<and>
        path_value (replicate 64 True @ [False]) = 36893488147419103230"
proof -
  from overlong_code_kept [OF skew_root skew_need skew_deep_leaf] obtain cc where
    cc: "build_char_codes skew_freq (replicate NUM_CHARS zero_entry) = Inr cc" "len (cc ! 0) = 65"
      "unat (code (cc ! 0)) = (2 ^ 65 - 2) mod 2 ^ 64"
    by (auto simp: deep_path_value)
  from cc(3) have "unat (code (cc ! 0)) = unat (18446744073709551614 :: ulong)"
    by simp
  then have "code (cc ! 0) = 18446744073709551614"
    by (simp only: word_unat_eq_iff)
  with cc(1,2) show ?thesis
    by (auto simp: MAX_CODE_LEN_def deep_path_value build_char_codes_any [OF stale_length])
qed

text \<open>
  C7: for the single input string \<open>aaa\<close> the byte \<open>a\<close> has frequency 3 and the code
  table gives it code length 0; the claim says every byte that appears has a positive
  code length.
\<close>

theorem appearing_byte_length_zero:
  "count_char_freq [''aaa''] (of_char CHR ''a'') = 3 \<and>
   (\<exists>cc. build_char_codes (count_char_freq [''aaa'']) stale_table = Inr cc \<and>
      len (cc ! of_char CHR ''a'') = 0)"
  unfolding single_count build_char_codes_any [OF stale_length] single_build
  by (simp add: single_freq_def)

text \<open>
  C10: for every frequency table whose tree is at most 64 levels deep, every entry of
  the code table has a code value below \<open>2 ^ len\<close>: no bit at or above position
  \<open>len\<close> is set, and an entry of length 0 has code value 0.
\<close>

theorem code_within_length:
  assumes "length cc0 = NUM_CHARS" and "tree_depth fr cc0 \<le> MAX_CODE_LEN"
  shows "\<exists>cc. build_char_codes fr cc0 = Inr cc \<and>
           (\<forall>c<NUM_CHARS. unat (code (cc ! c)) < 2 ^ nat (len (cc ! c)) \<and>
              (\<forall>i\<ge>nat (len (cc ! c)). \<not> bit (code (cc ! c)) i) \<and>
              (len (cc ! c) = 0 \<longrightarrow> code (cc ! c) = 0))"
  using assms(2)
  unfolding tree_depth_any [OF assms(1)] build_char_codes_any [OF assms(1)]
  by (rule within_length_built)

theorem code_within_length_witness:
  "\<exists>cc. build_char_codes scenario_freq stale_table = Inr cc \<and>
      (\<forall>c<NUM_CHARS. unat (code (cc ! c)) < 2 ^ nat (len (cc ! c)) \<and>
         (\<forall>i\<ge>nat (len (cc ! c)). \<not> bit (code (cc ! c)) i) \<and>
         (len (cc ! c) = 0 \<longrightarrow> code (cc ! c) = 0))"
  using code_within_length [OF stale_length scenario_depth] .

text \<open>
  C8: when no symbol has a nonzero frequency, \<^verbatim>\<open>build_char_codes\<close> returns before any
  tree is built (\<^verbatim>\<open>root\<close> stays \<^verbatim>\<open>NULL\<close>) and every one of the 256 entries of the
  code table has code value 0 and code length 0, whatever the table held on entry.
\<close>

theorem empty_alphabet:
  assumes "length cc0 = NUM_CHARS" and "\<forall>c<NUM_CHARS. fr c = 0"
  shows "huffman_root fr cc0 = Inr None \<and>
         build_char_codes fr cc0 = Inr (replicate NUM_CHARS \<lparr>code = 0, len = 0\<rparr>)"
proof -
  from assms(2) have "alphabet fr = []"
    by (simp add: alphabet_def)
  from no_symbols [OF this] show ?thesis
    unfolding build_char_codes_any [OF assms(1)] huffman_root_any [OF assms(1)]
    unfolding zero_entry_def by simp
qed

theorem empty_alphabet_witness:
  "huffman_root (\<lambda>c. 0) (replicate 256 \<lparr>code = 5, len = 3\<rparr>) = Inr None \<and>
   build_char_codes (\<lambda>c. 0) (replicate 256 \<lparr>code = 5, len = 3\<rparr>) =
     Inr (replicate 256 \<lparr>code = 0, len = 0\<rparr>)"
  using empty_alphabet [of "replicate 256 \<lparr>code = 5, len = 3\<rparr>" "\<lambda>c. 0"]
  by (simp add: NUM_CHARS_def)

text \<open>
  C9: for the strings \<open>aab\<close> and \<open>abc\<close> the counts are a:3, b:2, c:1; the tree has the
  node of frequency 3 over c and b, merged first, under the root of frequency 6 whose
  other child is a; the code lengths are 1, 2 and 2; \<open>aab\<close> encodes to 4 bits and
  \<open>abc\<close> to 5 bits.
\<close>

theorem scenario_aab_abc:
  assumes "length cc0 = NUM_CHARS"
  shows "count_char_freq [''aab'', ''abc''] =
     (\<lambda>c. if c = of_char CHR ''a'' then 3 else if c = of_char CHR ''b'' then 2
          else if c = of_char CHR ''c'' then 1 else 0) \<and>
   huffman_root (count_char_freq [''aab'', ''abc'']) cc0 =
     Inr (Some (Inner 6 (Leaf (of_char CHR ''a'') 3)
                  (Inner 3 (Leaf (of_char CHR ''c'') 1) (Leaf (of_char CHR ''b'') 2)))) \<and>
   (\<exists>cc. build_char_codes (count_char_freq [''aab'', ''abc'']) cc0 = Inr cc \<and>
      len (cc ! of_char CHR ''a'') = 1 \<and>
      len (cc ! of_char CHR ''b'') = 2 \<and>
      len (cc ! of_char CHR ''c'') = 2 \<and>
      encode_command cc ''aab'' = Inr (4, 1) \<and>
      encode_command cc ''abc'' = Inr (5, 1))"
proof -
  have ch: "of_char CHR ''a'' = (97::nat)" "of_char CHR ''b'' = (98::nat)"
    "of_char CHR ''c'' = (99::nat)"
    by simp_all
  have e: "encode_command scenario_table ''aab'' = Inr (4, 1)"
    "encode_command scenario_table ''abc'' = Inr (5, 1)"
    by code_simp+
  have l: "len (scenario_table ! 97) = 1" "len (scenario_table ! 98) = 2"
    "len (scenario_table ! 99) = 2"
    by (simp_all add: scenario_table_def)
  from e l have b: "\<exists>cc. build_char_codes scenario_freq cc0 = Inr cc \<and> len (cc ! 97) = 1 \<and>
      len (cc ! 98) = 2 \<and> len (cc ! 99) = 2 \<and>
      encode_command cc ''aab'' = Inr (4, 1) \<and> encode_command cc ''abc'' = Inr (5, 1)"
    unfolding build_char_codes_any [OF assms] scenario_build by simp
  have f: "scenario_freq =
     (\<lambda>c. if c = 97 then 3 else if c = 98 then 2 else if c = 99 then 1 else 0)"
    by (simp add: scenario_freq_def)
  have r: "huffman_root scenario_freq cc0 =
      Inr (Some (Inner 6 (Leaf 97 3) (Inner 3 (Leaf 99 1) (Leaf 98 2))))"
    unfolding huffman_root_any [OF assms] scenario_root scenario_tree_def ..
  from f r b show ?thesis
    unfolding scenario_count ch by simp
qed

theorem scenario_aab_abc_witness:
  "count_char_freq [''aab'', ''abc''] =
     (\<lambda>c. if c = of_char CHR ''a'' then 3 else if c = of_char CHR ''b'' then 2
          else if c = of_char CHR ''c'' then 1 else 0) \<and>
   huffman_root (count_char_freq [''aab'', ''abc'']) stale_table =
     Inr (Some (Inner 6 (Leaf (of_char CHR ''a'') 3)
                  (Inner 3 (Leaf (of_char CHR ''c'') 1) (Leaf (of_char CHR ''b'') 2)))) \<and>
   (\<exists>cc. build_char_codes (count_char_freq [''aab'', ''abc'']) stale_table = Inr cc \<and>
      len (cc ! of_char CHR ''a'') = 1 \<and>
      len (cc ! of_char CHR ''b'') = 2 \<and>
      len (cc ! of_char CHR ''c'') = 2 \<and>
      encode_command cc ''aab'' = Inr (4, 1) \<and>
      encode_command cc ''abc'' = Inr (5, 1))"
  using scenario_aab_abc [OF stale_length] .

end
